theory Spec2Isabelle
  imports Main
begin

section \<open>JavaScript strings\<close>

text \<open>
  A JavaScript string is a sequence of UTF-16 code units and \<open>length\<close>, \<open>substring\<close> and
  \<open>slice\<close> count code units. The model uses \<^typ>\<open>string\<close>: a list of characters with
  codes 0 to 255, so it covers the strings whose code units are all below 256
  (ISO-8859-1, which holds every letter of the Portuguese literals of the program); one
  \<^typ>\<open>char\<close> is one code unit. The accented letters are written by their code.
\<close>

abbreviation LF :: char where "LF \<equiv> CHR 0x0A"
abbreviation CR :: char where "CR \<equiv> CHR 0x0D"
abbreviation a_grave :: char where "a_grave \<equiv> CHR 0xE0"
abbreviation a_acute :: char where "a_acute \<equiv> CHR 0xE1"
abbreviation a_tilde :: char where "a_tilde \<equiv> CHR 0xE3"
abbreviation c_cedilla :: char where "c_cedilla \<equiv> CHR 0xE7"
abbreviation e_acute :: char where "e_acute \<equiv> CHR 0xE9"
abbreviation e_circ :: char where "e_circ \<equiv> CHR 0xEA"
abbreviation i_acute :: char where "i_acute \<equiv> CHR 0xED"
abbreviation o_acute :: char where "o_acute \<equiv> CHR 0xF3"
abbreviation u_acute :: char where "u_acute \<equiv> CHR 0xFA"
abbreviation dquote :: char where "dquote \<equiv> CHR 0x22"

text \<open>
  White space and line terminators of ECMAScript below code 256: TAB, LF, VT, FF, CR,
  SPACE and NO-BREAK SPACE. Both \<open>String.prototype.trim\<close> and the class \<open>\s\<close> use this set.
\<close>

definition is_space :: "char \<Rightarrow> bool" where
  "is_space c =
     (c \<in> set [CHR 0x09, CHR 0x0A, CHR 0x0B, CHR 0x0C, CHR 0x0D, CHR 0x20, CHR 0xA0])"

definition is_digit :: "char \<Rightarrow> bool" where
  "is_digit c = (c \<in> set ''0123456789'')"

definition trim :: "string \<Rightarrow> string" where
  "trim s = rev (dropWhile is_space (rev (dropWhile is_space s)))"

text \<open>\<open>s.substring(0, n)\<close> and \<open>s.slice(0, n)\<close> for \<open>n \<ge> 0\<close> are \<^term>\<open>take n s\<close>.\<close>

text \<open>\<open>s.includes(p)\<close>: \<open>p\<close> occurs in \<open>s\<close> as a contiguous run.\<close>

fun startsWith :: "string \<Rightarrow> string \<Rightarrow> bool" where
  "startsWith s [] = True"
| "startsWith [] (p # ps) = False"
| "startsWith (x # xs) (p # ps) = (x = p \<and> startsWith xs ps)"

fun includes_str :: "string \<Rightarrow> string \<Rightarrow> bool" where
  "includes_str [] p = (p = [])"
| "includes_str (x # xs) p = (startsWith (x # xs) p \<or> includes_str xs p)"

text \<open>\<open>s.split(c)\<close> for a one-character separator; the accumulator holds the current piece reversed.\<close>

fun split_char :: "char \<Rightarrow> string \<Rightarrow> string \<Rightarrow> string list" where
  "split_char c acc [] = [rev acc]"
| "split_char c acc (x # xs) =
     (if x = c then rev acc # split_char c [] xs else split_char c (x # acc) xs)"

text \<open>Template interpolation of a non-negative integer: its decimal digits.\<close>

definition digit_char :: "nat \<Rightarrow> char" where
  "digit_char d = ''0123456789'' ! d"

function show_nat :: "nat \<Rightarrow> string" where
  "show_nat n = (if n < 10 then [digit_char n] else show_nat (n div 10) @ [digit_char (n mod 10)])"
  by pat_completeness auto
termination
  by (relation "measure (\<lambda>n. n)") auto

declare show_nat.simps [simp del]

text \<open>
  \<open>toLowerCase\<close> below code 256: A to Z and the capital letters 0xC0 to 0xDE without the
  multiplication sign 0xD7 move up by 32, which sets bit 5 of the code (it is clear in
  each of them); nothing else changes.
\<close>

definition upper_letters :: string where
  "upper_letters = ''ABCDEFGHIJKLMNOPQRSTUVWXYZ'' @
     [CHR 0xC0, CHR 0xC1, CHR 0xC2, CHR 0xC3, CHR 0xC4, CHR 0xC5, CHR 0xC6, CHR 0xC7,
      CHR 0xC8, CHR 0xC9, CHR 0xCA, CHR 0xCB, CHR 0xCC, CHR 0xCD, CHR 0xCE, CHR 0xCF,
      CHR 0xD0, CHR 0xD1, CHR 0xD2, CHR 0xD3, CHR 0xD4, CHR 0xD5, CHR 0xD6,
      CHR 0xD8, CHR 0xD9, CHR 0xDA, CHR 0xDB, CHR 0xDC, CHR 0xDD, CHR 0xDE]"

definition lower_char :: "char \<Rightarrow> char" where
  "lower_char c =
     (if c \<in> set upper_letters
      then (case c of Char b0 b1 b2 b3 b4 b5 b6 b7 \<Rightarrow> Char b0 b1 b2 b3 b4 True b6 b7)
      else c)"

definition toLowerCase :: "string \<Rightarrow> string" where
  "toLowerCase s = map lower_char s"

section \<open>Regular expressions\<close>

text \<open>
  The regular expressions of the program are sequences of the items below, all with the
  flag \<open>i\<close> and none with \<open>g\<close>, \<open>m\<close> or \<open>u\<close>. The matcher is the backtracking matcher of
  ECMAScript in continuation-passing style: \<open>rmatch r k s\<close> matches \<open>r\<close> at the front of
  \<open>s\<close> and hands the rest to the continuation \<open>k\<close>; when \<open>k\<close> fails, the last choice is
  revised (a greedy repetition gives one character back, a lazy one takes one more). The
  result is the text of capture group 1 and the input left after the match.
\<close>

text \<open>
  Canonicalisation of the flag \<open>i\<close> without \<open>u\<close>: a character is compared by its upper
  case. Below code 256 that moves a to z and 0xE0 to 0xFE without the division sign 0xF7
  down by 32, which clears bit 5 of the code (the upper case of 0xFF and of the micro sign
  lie beyond 255 and that of the sharp s is two letters, so these three are equal to
  themselves only).
\<close>

definition lower_letters :: string where
  "lower_letters = ''abcdefghijklmnopqrstuvwxyz'' @
     [CHR 0xE0, CHR 0xE1, CHR 0xE2, CHR 0xE3, CHR 0xE4, CHR 0xE5, CHR 0xE6, CHR 0xE7,
      CHR 0xE8, CHR 0xE9, CHR 0xEA, CHR 0xEB, CHR 0xEC, CHR 0xED, CHR 0xEE, CHR 0xEF,
      CHR 0xF0, CHR 0xF1, CHR 0xF2, CHR 0xF3, CHR 0xF4, CHR 0xF5, CHR 0xF6,
      CHR 0xF8, CHR 0xF9, CHR 0xFA, CHR 0xFB, CHR 0xFC, CHR 0xFD, CHR 0xFE]"

definition canonicalize :: "char \<Rightarrow> char" where
  "canonicalize c =
     (if c \<in> set lower_letters
      then (case c of Char b0 b1 b2 b3 b4 b5 b6 b7 \<Rightarrow> Char b0 b1 b2 b3 b4 False b6 b7)
      else c)"

datatype cls =
    Space           \<comment> \<open>\<open>\s\<close>\<close>
  | Digit           \<comment> \<open>\<open>\d\<close>\<close>
  | Dot             \<comment> \<open>\<open>.\<close>: no line terminator\<close>
  | AnyChar         \<comment> \<open>\<open>[\s\S]\<close>\<close>
  | NotSpaceComma   \<comment> \<open>\<open>[^\s,]\<close>\<close>

fun in_cls :: "cls \<Rightarrow> char \<Rightarrow> bool" where
  "in_cls Space c = is_space c"
| "in_cls Digit c = is_digit c"
| "in_cls Dot c = (c \<noteq> LF \<and> c \<noteq> CR)"
| "in_cls AnyChar c = True"
| "in_cls NotSpaceComma c = (\<not> is_space c \<and> c \<noteq> CHR '','')"

datatype item =
    Lit char                \<comment> \<open>one literal character\<close>
  | Star cls                \<comment> \<open>\<open>c*\<close>, greedy\<close>
  | Plus cls                \<comment> \<open>\<open>c+\<close>, greedy\<close>
  | Opt char                \<comment> \<open>\<open>x?\<close>, greedy\<close>
  | Eol                     \<comment> \<open>\<open>$\<close>: end of input (no flag \<open>m\<close>)\<close>
  | CapLazy cls             \<comment> \<open>\<open>(c*?)\<close>, capture group 1\<close>
  | CapPlus cls             \<comment> \<open>\<open>(c+)\<close>, capture group 1\<close>
  | Alt "item list list"    \<comment> \<open>\<open>(?:a|b)\<close>\<close>
  | Look "item list list"   \<comment> \<open>\<open>(?=a|b)\<close>\<close>

type_synonym mres = "(string \<times> string) option"

definition accept :: "string \<Rightarrow> mres" where
  "accept t = Some ([], t)"

fun star_g :: "cls \<Rightarrow> (string \<Rightarrow> mres) \<Rightarrow> string \<Rightarrow> mres" where
  "star_g c k [] = k []"
| "star_g c k (x # xs) =
     (if in_cls c x
      then (case star_g c k xs of Some res \<Rightarrow> Some res | None \<Rightarrow> k (x # xs))
      else k (x # xs))"

definition close_group :: "string \<Rightarrow> mres \<Rightarrow> mres" where
  "close_group acc m = (case m of None \<Rightarrow> None | Some (c, rest) \<Rightarrow> Some (rev acc, rest))"

fun cap_g :: "cls \<Rightarrow> (string \<Rightarrow> mres) \<Rightarrow> string \<Rightarrow> string \<Rightarrow> mres" where
  "cap_g c k acc [] = close_group acc (k [])"
| "cap_g c k acc (x # xs) =
     (if in_cls c x
      then (case cap_g c k (x # acc) xs of Some res \<Rightarrow> Some res
            | None \<Rightarrow> close_group acc (k (x # xs)))
      else close_group acc (k (x # xs)))"

fun cap_l :: "cls \<Rightarrow> (string \<Rightarrow> mres) \<Rightarrow> string \<Rightarrow> string \<Rightarrow> mres" where
  "cap_l c k acc [] = close_group acc (k [])"
| "cap_l c k acc (x # xs) =
     (case close_group acc (k (x # xs)) of Some res \<Rightarrow> Some res
      | None \<Rightarrow> if in_cls c x then cap_l c k (x # acc) xs else None)"

fun first_some :: "mres list \<Rightarrow> mres" where
  "first_some [] = None"
| "first_some (m # ms) = (case m of Some res \<Rightarrow> Some res | None \<Rightarrow> first_some ms)"

fun rmatch :: "item list \<Rightarrow> (string \<Rightarrow> mres) \<Rightarrow> string \<Rightarrow> mres" where
  "rmatch [] k s = k s"
| "rmatch (Lit c # r) k s =
     (case s of [] \<Rightarrow> None
      | x # xs \<Rightarrow> if canonicalize x = canonicalize c then rmatch r k xs else None)"
| "rmatch (Star c # r) k s = star_g c (\<lambda>t. rmatch r k t) s"
| "rmatch (Plus c # r) k s =
     (case s of [] \<Rightarrow> None
      | x # xs \<Rightarrow> if in_cls c x then star_g c (\<lambda>t. rmatch r k t) xs else None)"
| "rmatch (Opt c # r) k s =
     (case s of [] \<Rightarrow> rmatch r k []
      | x # xs \<Rightarrow>
          if canonicalize x = canonicalize c
          then (case rmatch r k xs of Some res \<Rightarrow> Some res | None \<Rightarrow> rmatch r k (x # xs))
          else rmatch r k (x # xs))"
| "rmatch (Eol # r) k s = (if s = [] then rmatch r k s else None)"
| "rmatch (CapLazy c # r) k s = cap_l c (\<lambda>t. rmatch r k t) [] s"
| "rmatch (CapPlus c # r) k s =
     (case s of [] \<Rightarrow> None
      | x # xs \<Rightarrow> if in_cls c x then cap_g c (\<lambda>t. rmatch r k t) [x] xs else None)"
| "rmatch (Alt alts # r) k s = first_some (map (\<lambda>a. rmatch a (\<lambda>t. rmatch r k t) s) alts)"
| "rmatch (Look alts # r) k s =
     (if list_ex (\<lambda>a. rmatch a accept s \<noteq> None) alts then rmatch r k s else None)"

definition lits :: "string \<Rightarrow> item list" where
  "lits s = map Lit s"

text \<open>
  \<open>s.match(r)\<close> for a pattern without \<open>^\<close>: the leftmost position where \<open>r\<close> matches; the
  result is the text of group 1 (empty when the pattern has no group).
\<close>

fun rx_exec :: "item list \<Rightarrow> string \<Rightarrow> string option" where
  "rx_exec r [] = map_option fst (rmatch r accept [])"
| "rx_exec r (x # xs) =
     (case rmatch r accept (x # xs) of Some (cap, rest) \<Rightarrow> Some cap
      | None \<Rightarrow> rx_exec r xs)"

text \<open>
  \<open>s.match(r)\<close> for a pattern that starts with \<open>^\<close> (only position 0 is tried), and
  \<open>s.replace(r, '')\<close> for such a pattern: the input without the matched front.
\<close>

definition rx_exec_start :: "item list \<Rightarrow> string \<Rightarrow> string option" where
  "rx_exec_start r s = map_option fst (rmatch r accept s)"

definition rx_remove_start :: "item list \<Rightarrow> string \<Rightarrow> string" where
  "rx_remove_start r s = (case rmatch r accept s of Some (cap, rest) \<Rightarrow> rest | None \<Rightarrow> s)"

text \<open>
  \<open>s.split(r)\<close> for a pattern without groups. From the end \<open>p\<close> of the last separator the
  position \<open>q\<close> moves right; a match at \<open>q\<close> that ends at \<open>e \<noteq> p\<close> closes the piece
  \<open>s[p..q)\<close> and continues at \<open>e\<close>, otherwise \<open>q\<close> advances. The accumulator is the piece
  \<open>s[p..q)\<close> reversed. On the empty input the result is the one empty piece unless the
  pattern matches it.
\<close>

function split_from :: "item list \<Rightarrow> string \<Rightarrow> string \<Rightarrow> string list" where
  "split_from r acc [] = [rev acc]"
| "split_from r acc (x # xs) =
     (case rmatch r accept (x # xs) of
        None \<Rightarrow> split_from r (x # acc) xs
      | Some (cap, rest) \<Rightarrow>
          if length rest < length (x # xs) then rev acc # split_from r [] rest
          else if acc = [] then split_from r [x] xs
          else rev acc # split_from r [x] xs)"
  by pat_completeness auto
termination
  by (relation "measure (\<lambda>(r, acc, s). length s)") auto

definition split_rx :: "item list \<Rightarrow> string \<Rightarrow> string list" where
  "split_rx r s = (if s = [] \<and> rmatch r accept [] \<noteq> None then [] else split_from r [] s)"

section \<open>Scene drafts and the scene parser (\<open>src/api/openai.ts\<close>)\<close>

text \<open>The object literals that the parser pushes: four text fields, always present.\<close>

record draft =
  title :: string
  description :: string
  narration :: string
  dialogue :: string

text \<open>
  The Portuguese labels and texts of the program. The names below leave the accents out;
  the strings hold them: \<open>Titulo\<close> has i with acute, \<open>Descricao\<close> and \<open>Narracao\<close> have
  c with cedilla and a with tilde, \<open>Dialogo\<close> has a with acute.
\<close>

definition Cena :: string where "Cena = ''Cena''"
definition Titulo :: string where "Titulo = ''T'' @ [i_acute] @ ''tulo''"
definition Descricao :: string where "Descricao = ''Descri'' @ [c_cedilla, a_tilde] @ ''o''"
definition Narracao :: string where "Narracao = ''Narra'' @ [c_cedilla, a_tilde] @ ''o''"
definition Dialogo :: string where "Dialogo = ''Di'' @ [a_acute] @ ''logo''"
definition historia :: string where "historia = ''hist'' @ [o_acute] @ ''ria''"
definition Continuacao :: string where
  "Continuacao = ''Continua'' @ [c_cedilla, a_tilde] @ ''o''"

text \<open>\<open>/Cena\s+\d+\s*:/i\<close>, the separator of \<open>content.split\<close>.\<close>

definition rx_scene_split :: "item list" where
  "rx_scene_split = lits Cena @ [Plus Space, Plus Digit, Star Space, Lit CHR '':'']"

text \<open>\<open>/Titulo\s*:\s*(.*?)(?:\r?\n|$)/i\<close>, the label written with its accent as in \<^const>\<open>Titulo\<close>.\<close>

definition rx_title :: "item list" where
  "rx_title = lits Titulo @ [Star Space, Lit CHR '':'', Star Space, CapLazy Dot,
                             Alt [ [Opt CR, Lit LF], [Eol] ] ]"

text \<open>\<open>/Descricao\s*:\s*([\s\S]*?)(?=Narracao\s*:|Dialogo\s*:|$)/i\<close>, labels with their accents.\<close>

definition rx_desc :: "item list" where
  "rx_desc = lits Descricao @ [Star Space, Lit CHR '':'', Star Space, CapLazy AnyChar,
      Look [lits Narracao @ [Star Space, Lit CHR '':''],
            lits Dialogo @ [Star Space, Lit CHR '':''],
            [Eol] ] ]"

text \<open>\<open>/Narracao\s*:\s*([\s\S]*?)(?=Dialogo\s*:|$)/i\<close>\<close>

definition rx_narr :: "item list" where
  "rx_narr = lits Narracao @ [Star Space, Lit CHR '':'', Star Space, CapLazy AnyChar,
      Look [lits Dialogo @ [Star Space, Lit CHR '':''], [Eol] ] ]"

text \<open>\<open>/Dialogo\s*:\s*([\s\S]*?)$/i\<close>\<close>

definition rx_diag :: "item list" where
  "rx_diag = lits Dialogo @ [Star Space, Lit CHR '':'', Star Space, CapLazy AnyChar, Eol]"

text \<open>\<open>/^Cena\s+(\d+)\s*:?\s*$/i\<close>, tried at the start of a trimmed line.\<close>

definition rx_scene_line :: "item list" where
  "rx_scene_line =
     lits Cena @ [Plus Space, CapPlus Digit, Star Space, Opt CHR '':'', Star Space, Eol]"

text \<open>
  \<open>/^L\s*:/i\<close> and \<open>/^L\s*:\s*/i\<close> for a field label \<open>L\<close>: the test of a line and the
  pattern that \<open>replace\<close> removes from its front.
\<close>

definition rx_label :: "string \<Rightarrow> item list" where
  "rx_label l = lits l @ [Star Space, Lit CHR '':'']"

definition rx_label_lead :: "string \<Rightarrow> item list" where
  "rx_label_lead l = lits l @ [Star Space, Lit CHR '':'', Star Space]"

text \<open>
  \<open>m && m[1] ? m[1].trim() : d\<close>: the trimmed text of group 1 when the pattern matched and
  the group is not empty, else the default.
\<close>

definition group_or :: "string option \<Rightarrow> string \<Rightarrow> string" where
  "group_or m d = (case m of None \<Rightarrow> d | Some g \<Rightarrow> if g = [] then d else trim g)"

text \<open>First tier: one draft for each piece after the first separator; \<open>i\<close> counts from 1.\<close>

definition parse_block :: "nat \<Rightarrow> string \<Rightarrow> draft" where
  "parse_block i piece =
     (let block = trim piece
      in \<lparr> title = group_or (rx_exec rx_title block) (Cena @ '' '' @ show_nat i),
           description = group_or (rx_exec rx_desc block) [],
           narration = group_or (rx_exec rx_narr block) [],
           dialogue = group_or (rx_exec rx_diag block) [] \<rparr>)"

fun parse_blocks :: "nat \<Rightarrow> string list \<Rightarrow> draft list" where
  "parse_blocks i [] = []"
| "parse_blocks i (b # bs) = parse_block i b # parse_blocks (Suc i) bs"

definition block_tier :: "string \<Rightarrow> draft list" where
  "block_tier content = parse_blocks 1 (tl (split_rx rx_scene_split content))"

text \<open>
  Second tier: the loop over the lines, with its three variables \<open>scenes\<close>,
  \<open>currentScene\<close> and \<open>currentField\<close> as the state.
\<close>

datatype field = FTitle | FDescription | FNarration | FDialogue

record line_state =
  scenes_acc :: "draft list"
  currentScene :: "draft option"
  currentField :: "field option"

definition set_if_value :: "field \<Rightarrow> string \<Rightarrow> draft \<Rightarrow> draft" where
  "set_if_value f v d =
     (if v = [] then d
      else case f of
             FTitle \<Rightarrow> d\<lparr>title := v\<rparr>
           | FDescription \<Rightarrow> d\<lparr>description := v\<rparr>
           | FNarration \<Rightarrow> d\<lparr>narration := v\<rparr>
           | FDialogue \<Rightarrow> d\<lparr>dialogue := v\<rparr>)"

definition append_line :: "field \<Rightarrow> string \<Rightarrow> draft \<Rightarrow> draft" where
  "append_line f line d =
     (case f of
        FTitle \<Rightarrow> d\<lparr>title := (if title d = [] then line else title d @ '' '' @ line)\<rparr>
      | FDescription \<Rightarrow>
          d\<lparr>description := (if description d = [] then line else description d @ [LF] @ line)\<rparr>
      | FNarration \<Rightarrow>
          d\<lparr>narration := (if narration d = [] then line else narration d @ [LF] @ line)\<rparr>
      | FDialogue \<Rightarrow>
          d\<lparr>dialogue := (if dialogue d = [] then line else dialogue d @ [LF] @ line)\<rparr>)"

definition label_field :: "string \<Rightarrow> field option" where
  "label_field line =
     (if rx_exec_start (rx_label Titulo) line \<noteq> None then Some FTitle
      else if rx_exec_start (rx_label Descricao) line \<noteq> None then Some FDescription
      else if rx_exec_start (rx_label Narracao) line \<noteq> None then Some FNarration
      else if rx_exec_start (rx_label Dialogo) line \<noteq> None then Some FDialogue
      else None)"

definition field_label :: "field \<Rightarrow> string" where
  "field_label f =
     (case f of FTitle \<Rightarrow> Titulo | FDescription \<Rightarrow> Descricao
      | FNarration \<Rightarrow> Narracao | FDialogue \<Rightarrow> Dialogo)"

definition line_step :: "line_state \<Rightarrow> string \<Rightarrow> line_state" where
  "line_step st raw =
     (let line = trim raw
      in case rx_exec_start rx_scene_line line of
           Some num \<Rightarrow>
             \<lparr> scenes_acc = (case currentScene st of None \<Rightarrow> scenes_acc st
                              | Some cur \<Rightarrow> scenes_acc st @ [cur]),
               currentScene = Some \<lparr> title = Cena @ '' '' @ num, description = [],
                                     narration = [], dialogue = [] \<rparr>,
               currentField = None \<rparr>
         | None \<Rightarrow>
             (case currentScene st of
                None \<Rightarrow> st
              | Some cur \<Rightarrow>
                  (case label_field line of
                     Some f \<Rightarrow>
                       st\<lparr> currentField := Some f,
                           currentScene :=
                             Some (set_if_value f
                                     (trim (rx_remove_start (rx_label_lead (field_label f)) line))
                                     cur) \<rparr>
                   | None \<Rightarrow>
                       (case currentField st of
                          None \<Rightarrow> st
                        | Some f \<Rightarrow>
                            if line = [] then st
                            else st\<lparr> currentScene := Some (append_line f line cur) \<rparr>))))"

definition line_tier :: "string \<Rightarrow> draft list" where
  "line_tier content =
     (let st = foldl line_step
                 \<lparr> scenes_acc = [], currentScene = None, currentField = None \<rparr>
                 (split_char LF [] content)
      in case currentScene st of None \<Rightarrow> scenes_acc st | Some cur \<Rightarrow> scenes_acc st @ [cur])"

text \<open>Third tier: the placeholder pushed for index \<open>i\<close> when both tiers found nothing.\<close>

definition default_scene :: "string \<Rightarrow> nat \<Rightarrow> draft" where
  "default_scene storyProposal i =
     \<lparr> title = Cena @ '' '' @ show_nat (i + 1),
       description = ''Parte '' @ show_nat (i + 1) @ '' da '' @ historia @ '' sobre ''
                     @ [dquote] @ take 30 storyProposal @ ''...'' @ [dquote],
       narration = ''Cena sem conte'' @ [u_acute] @ ''do espec'' @ [i_acute] @ ''fico.'',
       dialogue = [] \<rparr>"

text \<open>
  \<open>processScenes(content, numScenes, storyProposal)\<close>. The second tier runs only when
  the first left \<open>scenes\<close> empty, the third only when the second did too. The count is an
  integer; the loop \<open>for (i = 0; i < numScenes; i++)\<close> runs \<open>nat numScenes\<close> times.
\<close>

definition processScenes :: "string \<Rightarrow> int \<Rightarrow> string \<Rightarrow> draft list" where
  "processScenes content numScenes storyProposal =
     (let scenes1 = block_tier content;
          scenes2 = (if scenes1 = [] then line_tier content else scenes1)
      in if scenes2 = [] then map (default_scene storyProposal) [0 ..< nat numScenes]
         else scenes2)"

section \<open>\<open>generateScenes\<close> (\<open>src/api/openai.ts\<close>)\<close>

datatype error =
    StoryNotFound     \<comment> \<open>the story id resolves to no story\<close>
  | SceneNotFound     \<comment> \<open>the scene id resolves to no scene\<close>
  | NoContent         \<comment> \<open>\<open>extractContent\<close>: the reply holds no content\<close>
  | ApiError          \<comment> \<open>the chat request itself failed\<close>

text \<open>
  The reply of the chat service is an input of the model: the request fails, or it
  returns a reply whose content may be missing. \<open>extractContent\<close> throws on a missing or
  empty content.
\<close>

datatype chat = ChatFailed | ChatReply "string option"

definition extractContent :: "chat \<Rightarrow> error + string" where
  "extractContent response =
     (case response of
        ChatFailed \<Rightarrow> Inl ApiError
      | ChatReply None \<Rightarrow> Inl NoContent
      | ChatReply (Some content) \<Rightarrow> if content = [] then Inl NoContent else Inr content)"

text \<open>The draft that \<open>generateScenes\<close> pushes at index \<open>i\<close> when the parser returned too few.\<close>

definition filler_scene :: "string \<Rightarrow> nat \<Rightarrow> draft" where
  "filler_scene storyProposal i =
     \<lparr> title = Cena @ '' '' @ show_nat (i + 1),
       description = Continuacao @ '' da '' @ historia @ '' em ''
                     @ take 50 storyProposal @ ''...'',
       narration = ''A '' @ historia @ '' continua...'',
       dialogue = [] \<rparr>"

text \<open>
  The part of \<open>generateScenes\<close> after \<open>extractContent\<close>: the count is clamped to 3..15, the
  content is parsed, and a result of another length is filled up by the loop
  \<open>for (i = processedScenes.length; i < actualNumScenes; i++)\<close> or cut by
  \<open>slice(0, actualNumScenes)\<close>.
\<close>

definition scenes_of_content :: "string \<Rightarrow> string \<Rightarrow> int \<Rightarrow> draft list" where
  "scenes_of_content content storyProposal numScenes =
     (let actualNumScenes = min (max numScenes 3) 15;
          processedScenes = processScenes content actualNumScenes storyProposal
      in if int (length processedScenes) \<noteq> actualNumScenes
         then if int (length processedScenes) < actualNumScenes
              then processedScenes
                   @ map (filler_scene storyProposal)
                       [length processedScenes ..< nat actualNumScenes]
              else take (nat actualNumScenes) processedScenes
         else processedScenes)"

definition generateScenes :: "chat \<Rightarrow> string \<Rightarrow> int \<Rightarrow> error + draft list" where
  "generateScenes response storyProposal numScenes =
     (case extractContent response of
        Inl e \<Rightarrow> Inl e
      | Inr content \<Rightarrow> Inr (scenes_of_content content storyProposal numScenes))"

section \<open>The style translator and the image prompt (\<open>src/api/imageGeneration.ts\<close>)\<close>

text \<open>
  \<open>styleMap\<close> is an object literal, and \<open>styleMap[lowerStyle]\<close> is a property read: it
  finds the nine own properties and, through the prototype of every object literal, the
  properties of \<open>Object.prototype\<close>. A lower-cased key can only name two of those:
  \<open>constructor\<close> (the function \<open>Object\<close>) and \<open>__proto__\<close> (the prototype object itself);
  the names of the others hold a capital letter. So the value read is a string or one of
  these two objects, and \<open>??\<close> falls back to \<open>style\<close> only when nothing is found.
\<close>

datatype jsval = JString string | JObjectFunction | JObjectPrototype

definition styleMap :: "(string \<times> string) list" where
  "styleMap =
     [(''realista'', ''photorealistic''),
      (''fotorrealista'', ''hyper-realistic''),
      (''aquarela'', ''watercolor painting''),
      (''cartoon'', ''cartoon''),
      (''anime'', ''anime style''),
      ([o_acute] @ ''leo'', ''oil painting''),
      (''pastel'', ''pastel drawing''),
      (''pixelart'', ''pixel art''),
      (''pintura'', ''painting'')]"

definition styleMap_get :: "string \<Rightarrow> jsval option" where
  "styleMap_get key =
     (case map_of styleMap key of
        Some v \<Rightarrow> Some (JString v)
      | None \<Rightarrow>
          if key = ''constructor'' then Some JObjectFunction
          else if key = ''__proto__'' then Some JObjectPrototype
          else None)"

text \<open>
  \<open>translateStyleToEnglish(style)\<close>; \<open>None\<close> is an absent argument. \<open>!style\<close> holds for
  the absent and for the empty string.
\<close>

definition translateStyleToEnglish :: "string option \<Rightarrow> jsval" where
  "translateStyleToEnglish style =
     (case style of
        None \<Rightarrow> JString ''realistic''
      | Some s \<Rightarrow>
          if s = [] then JString ''realistic''
          else (case styleMap_get (toLowerCase s) of Some v \<Rightarrow> v | None \<Rightarrow> JString s))"

text \<open>The text that a template literal puts in for a value.\<close>

definition to_str :: "jsval \<Rightarrow> string" where
  "to_str v =
     (case v of
        JString s \<Rightarrow> s
      | JObjectFunction \<Rightarrow> ''function Object() { [native code] }''
      | JObjectPrototype \<Rightarrow> ''[object Object]'')"

text \<open>
  A persisted scene (\<open>src/models/Scene.ts\<close>): the four text fields of a draft and
  \<open>id\<close>, \<open>storyId\<close>, \<open>order\<close>, \<open>imageUrl\<close>. The field \<open>id\<close> is named \<open>sceneId\<close> here.
  \<open>order\<close> is the index that \<open>generateStoryScenes\<close> assigns, a natural number.
\<close>

record scene = draft +
  sceneId :: string
  storyId :: string
  order :: nat
  imageUrl :: string

definition placeholder :: string where
  "placeholder = ''/images/placeholder.jpg''"

definition consistency_instruction :: string where
  "consistency_instruction =
     ''Mantenha a apar'' @ [e_circ] @ ''ncia consistente dos personagens com as cenas anteriores. ''"

definition consistencyPrompt :: "string list \<Rightarrow> string" where
  "consistencyPrompt previousImages =
     (if previousImages \<noteq> [] then consistency_instruction else [])"

definition style_marker :: string where
  "style_marker = ''Ilustra'' @ [c_cedilla, a_tilde] @ ''o no estilo''"

definition lead_in :: string where
  "lead_in = ''Create an image based on this description: ''"

text \<open>The sentence appended for a scene with \<open>order > 0\<close>, up to the second sentence.\<close>

definition sequence_note :: "nat \<Rightarrow> string" where
  "sequence_note ord =
     '' Esta '' @ [e_acute] @ '' a cena '' @ show_nat (ord + 1) @ '' de uma sequ'' @ [e_circ]
     @ ''ncia cont'' @ [i_acute] @ ''nua.''"

definition keep_identical :: string where
  "keep_identical =
     '' Mantenha os personagens visualmente id'' @ [e_circ] @ ''nticos ''
     @ [a_grave] @ ''s cenas anteriores.''"

definition keep_same :: string where
  "keep_same =
     '' Mantenha os mesmos personagens, com a mesma apar'' @ [e_circ] @ ''ncia f''
     @ [i_acute] @ ''sica, roupas e cores das cenas anteriores.''"

text \<open>\<open>/estilo\s+([^\s,]+)/i\<close>\<close>

definition rx_style :: "item list" where
  "rx_style = lits ''estilo'' @ [Plus Space, CapPlus NotSpaceComma]"

text \<open>
  \<open>generateStyleSample(prompt, style)\<close>: the prompt it sends.
  \<open>styleMatch?.[1] || style || ''\<close> takes the first of the three that is not empty.
\<close>

definition styleSamplePrompt :: "string \<Rightarrow> string option \<Rightarrow> string" where
  "styleSamplePrompt prompt style =
     (let requestedStyle =
            (case rx_exec rx_style prompt of
               Some g \<Rightarrow> if g \<noteq> [] then g else (case style of Some s \<Rightarrow> s | None \<Rightarrow> [])
             | None \<Rightarrow> (case style of Some s \<Rightarrow> s | None \<Rightarrow> []))
      in to_str (translateStyleToEnglish (Some requestedStyle)) @ '' style image with people'')"

text \<open>
  The style prefix and the cut of the scene paths:
  \<open>if (style && style.trim() !== '') finalPrompt = `${translatedStyle} ${finalPrompt}`\<close>,
  then \<open>if (finalPrompt.length > 1000) finalPrompt = finalPrompt.slice(0, 1000)\<close>.
\<close>

definition with_style :: "string option \<Rightarrow> string \<Rightarrow> string" where
  "with_style style p =
     (case style of
        None \<Rightarrow> p
      | Some s \<Rightarrow> if trim s \<noteq> [] then to_str (translateStyleToEnglish (Some s)) @ '' '' @ p
                  else p)"

definition limit_prompt :: "string \<Rightarrow> string" where
  "limit_prompt p = (if length p > 1000 then take 1000 p else p)"

text \<open>Part 4: the first of narration, dialogue and title that is not blank, trimmed.\<close>

definition alternativeText :: "scene \<Rightarrow> string" where
  "alternativeText sc =
     (if trim (narration sc) \<noteq> [] then trim (narration sc)
      else if trim (dialogue sc) \<noteq> [] then trim (dialogue sc)
      else if trim (title sc) \<noteq> [] then trim (title sc)
      else [])"

text \<open>
  \<open>finalPrompt\<close>: the \<open>prompt\<close> field of the one request that \<open>generateImage(prompt, style,
  scene, previousImages)\<close> sends to the image service, or \<open>None\<close> when it sends none and
  returns the placeholder. \<open>None\<close> for \<open>prompt\<close>, \<open>style\<close> or \<open>scene\<close> is an absent or
  \<open>null\<close> argument. The branches are the four parts of the function, in its order.
\<close>

definition finalPrompt ::
    "string option \<Rightarrow> string option \<Rightarrow> scene option \<Rightarrow> string list \<Rightarrow> string option" where
  "finalPrompt prompt style sc previousImages =
     (let p = (case prompt of None \<Rightarrow> [] | Some t \<Rightarrow> t)
      in if p \<noteq> [] \<and> includes_str p style_marker then Some (styleSamplePrompt p style)
         else if p \<noteq> [] \<and> trim p \<noteq> [] then
           Some (lead_in @ consistencyPrompt previousImages @ trim p
                 @ (case sc of
                      None \<Rightarrow> []
                    | Some s \<Rightarrow> if order s > 0 then sequence_note (order s) @ keep_identical
                               else []))
         else
           (case sc of
              None \<Rightarrow> None
            | Some s \<Rightarrow>
                if trim (description s) \<noteq> [] then
                  Some (limit_prompt (with_style style
                    (lead_in @ consistencyPrompt previousImages @ trim (description s)
                     @ (if order s > 0 then sequence_note (order s) @ keep_same else []))))
                else if alternativeText s \<noteq> [] then
                  Some (limit_prompt (with_style style
                    (lead_in @ consistencyPrompt previousImages @ alternativeText s
                     @ (if order s > 0 then sequence_note (order s) @ keep_same else []))))
                else None))"

text \<open>
  The image service is an input of the model: \<open>api k p\<close> is the URL in the reply to the
  \<open>k\<close>-th request of a run, sent with prompt \<open>p\<close>, or \<open>None\<close> when that request throws or
  its reply holds no URL. Every request of \<open>generateImage\<close> sits in a \<open>try\<close> whose
  handler returns the placeholder, and \<open>url || "/images/placeholder.jpg"\<close> does the same
  for an empty URL.
\<close>

type_synonym image_api = "nat \<Rightarrow> string \<Rightarrow> string option"

definition generateImage ::
    "image_api \<Rightarrow> nat \<Rightarrow> string option \<Rightarrow> string option \<Rightarrow> scene option \<Rightarrow> string list \<Rightarrow> string"
  where
  "generateImage api k prompt style sc previousImages =
     (case finalPrompt prompt style sc previousImages of
        None \<Rightarrow> placeholder
      | Some p \<Rightarrow> (case api k p of
                     None \<Rightarrow> placeholder
                   | Some url \<Rightarrow> if url = [] then placeholder else url))"

section \<open>The scene store (\<open>src/controllers/sceneController.ts\<close>)\<close>

text \<open>
  The module keeps every scene in the array \<open>scenes\<close>; the model passes that array along.
  \<open>scenes.find(s => s.id === sceneId)\<close> yields the first scene with the id, and an
  assignment to a field of the object found changes that element of the array.
\<close>

fun update_first :: "('a \<Rightarrow> bool) \<Rightarrow> ('a \<Rightarrow> 'a) \<Rightarrow> 'a list \<Rightarrow> 'a list" where
  "update_first P f [] = []"
| "update_first P f (x # xs) = (if P x then f x # xs else x # update_first P f xs)"

definition find_scene :: "scene list \<Rightarrow> string \<Rightarrow> scene option" where
  "find_scene store sid = find (\<lambda>s. sceneId s = sid) store"

definition update_found :: "string \<Rightarrow> (scene \<Rightarrow> scene) \<Rightarrow> scene list \<Rightarrow> scene list" where
  "update_found sid f store = update_first (\<lambda>s. sceneId s = sid) f store"

text \<open>
  \<open>createScene(storyId, order, data)\<close>; \<open>uuid\<close> is the identifier that \<open>uuidv4()\<close> returns
  for this call. The result is the new array and the scene.
\<close>

definition createScene :: "scene list \<Rightarrow> string \<Rightarrow> string \<Rightarrow> nat \<Rightarrow> draft \<Rightarrow> scene list \<times> scene" where
  "createScene store uuid stId ord data =
     (let sc = \<lparr> title = (if title data \<noteq> [] then title data
                           else Cena @ '' '' @ show_nat (ord + 1)),
                  description = description data,
                  narration = narration data,
                  dialogue = dialogue data,
                  sceneId = uuid, storyId = stId, order = ord, imageUrl = [] \<rparr>
      in (store @ [sc], sc))"

text \<open>
  \<open>updateSceneImage(sceneId, style, scene, previousImages)\<close>: the image is generated from
  the stored object with an empty custom prompt; the parameter \<open>scene\<close> is not read.
  \<open>k\<close> numbers the request to the image service.
\<close>

definition updateSceneImage ::
    "image_api \<Rightarrow> nat \<Rightarrow> scene list \<Rightarrow> string \<Rightarrow> string \<Rightarrow> string list
       \<Rightarrow> error + (scene list \<times> scene)" where
  "updateSceneImage api k store sid style previousImages =
     (case find_scene store sid of
        None \<Rightarrow> Inl SceneNotFound
      | Some sceneObj \<Rightarrow>
          (let url = generateImage api k (Some []) (Some style) (Some sceneObj) previousImages
           in Inr (update_found sid (\<lambda>s. s\<lparr>imageUrl := url\<rparr>) store,
                   sceneObj\<lparr>imageUrl := url\<rparr>)))"

text \<open>
  \<open>getScenesByStory(storyId)\<close>: \<open>filter\<close>, then \<open>sort((a, b) => a.order - b.order)\<close>, which
  is stable and ascending, as \<^const>\<open>sort_key\<close> is.
\<close>

definition getScenesByStory :: "scene list \<Rightarrow> string \<Rightarrow> scene list" where
  "getScenesByStory store stId = sort_key order (filter (\<lambda>s. storyId s = stId) store)"

text \<open>
  \<open>updateScene(sceneId, updates)\<close>. A field of \<open>updates\<close> is absent (\<open>None\<close>) or a string;
  \<open>if (updates.title)\<close> holds for a string that is not empty.
\<close>

record scene_updates =
  new_title :: "string option"
  new_description :: "string option"
  new_narration :: "string option"
  new_dialogue :: "string option"

definition truthy :: "string option \<Rightarrow> bool" where
  "truthy v = (case v of None \<Rightarrow> False | Some t \<Rightarrow> t \<noteq> [])"

definition apply_updates :: "scene_updates \<Rightarrow> scene \<Rightarrow> scene" where
  "apply_updates updates sc =
     (let s1 = (if truthy (new_title updates) then sc\<lparr>title := the (new_title updates)\<rparr> else sc);
          s2 = (if truthy (new_description updates)
                then s1\<lparr>description := the (new_description updates)\<rparr> else s1);
          s3 = (if truthy (new_narration updates)
                then s2\<lparr>narration := the (new_narration updates)\<rparr> else s2);
          s4 = (if truthy (new_dialogue updates)
                then s3\<lparr>dialogue := the (new_dialogue updates)\<rparr> else s3)
      in s4)"

definition updateScene :: "scene list \<Rightarrow> string \<Rightarrow> scene_updates \<Rightarrow> error + (scene list \<times> scene)" where
  "updateScene store sid updates =
     (case find_scene store sid of
        None \<Rightarrow> Inl SceneNotFound
      | Some sc \<Rightarrow> Inr (update_found sid (apply_updates updates) store, apply_updates updates sc))"

text \<open>
  \<open>generateImagesForStory(storyId, style)\<close>. The state of its loop: the scene array, the
  array \<open>previousImages\<close>, the array \<open>updatedScenes\<close>, and a log with one entry for each
  call of \<open>updateSceneImage\<close>, holding the id of the scene and the list \<open>previousImages\<close>
  as it was passed. The request of the \<open>k\<close>-th iteration is request \<open>k\<close> of the run.
\<close>

record image_run =
  run_store :: "scene list"
  run_previous :: "string list"
  updatedScenes :: "scene list"
  calls :: "(string \<times> string list) list"

fun images_loop :: "image_api \<Rightarrow> string \<Rightarrow> scene list \<Rightarrow> image_run \<Rightarrow> error + image_run" where
  "images_loop api style [] run = Inr run"
| "images_loop api style (sc # rest) run =
     (case updateSceneImage api (length (updatedScenes run)) (run_store run) (sceneId sc) style
             (run_previous run) of
        Inl e \<Rightarrow> Inl e
      | Inr (store', updatedScene) \<Rightarrow>
          images_loop api style rest
            \<lparr> run_store = store',
              run_previous =
                (if imageUrl updatedScene \<noteq> [] \<and> imageUrl updatedScene \<noteq> placeholder
                 then run_previous run @ [imageUrl updatedScene] else run_previous run),
              updatedScenes = updatedScenes run @ [updatedScene],
              calls = calls run @ [(sceneId sc, run_previous run)] \<rparr>)"

definition generateImagesForStory ::
    "image_api \<Rightarrow> scene list \<Rightarrow> string \<Rightarrow> string \<Rightarrow> error + image_run" where
  "generateImagesForStory api store stId style =
     images_loop api style (getScenesByStory store stId)
       \<lparr> run_store = store, run_previous = [], updatedScenes = [], calls = [] \<rparr>"

section \<open>\<open>generateStoryScenes\<close> (\<open>src/controllers/storyController.ts\<close>)\<close>

text \<open>
  A story (\<open>src/models/Story.ts\<close>) with the fields that \<open>generateStoryScenes\<close> reads or
  writes; \<open>scenes\<close> holds references to scene objects, modelled by their ids. The two
  module arrays \<open>stories\<close> and \<open>scenes\<close> form the state.
\<close>

record story =
  story_id :: string
  proposal :: string
  story_style :: string
  story_scenes :: "string list"

record state =
  stories :: "story list"
  scenes :: "scene list"

text \<open>
  The object that the \<open>while\<close> loop of \<open>generateStoryScenes\<close> pushes; \<open>lastScene\<close> is
  \<open>adjustedScenes[adjustedScenes.length - 1]\<close>, undefined for the empty array.
\<close>

definition newScene :: "draft list \<Rightarrow> draft" where
  "newScene adjustedScenes =
     (if adjustedScenes = []
      then \<lparr> title = Cena @ '' '' @ show_nat (length adjustedScenes + 1),
             description = ''Nova cena'',
             narration = Narracao @ '' da cena'',
             dialogue = [] \<rparr>
      else (let lastScene = last adjustedScenes
            in \<lparr> title = Cena @ '' '' @ show_nat (length adjustedScenes + 1),
                 description = Continuacao @ '': '' @ description lastScene,
                 narration = narration lastScene,
                 dialogue = dialogue lastScene \<rparr>))"

function pad_scenes :: "draft list \<Rightarrow> int \<Rightarrow> draft list" where
  "pad_scenes adjustedScenes numScenes =
     (if int (length adjustedScenes) < numScenes
      then pad_scenes (adjustedScenes @ [newScene adjustedScenes]) numScenes
      else adjustedScenes)"
  by pat_completeness auto
termination
  by (relation "measure (\<lambda>(xs, n). nat (n - int (length xs)))") auto

declare pad_scenes.simps [simp del]

text \<open>
  \<open>xs.slice(0, n)\<close> for an integer \<open>n\<close>: a negative end counts from the end of the array.
\<close>

definition slice0 :: "'a list \<Rightarrow> int \<Rightarrow> 'a list" where
  "slice0 xs n = (if n < 0 then take (nat (int (length xs) + n)) xs else take (nat n) xs)"

definition adjustScenes :: "draft list \<Rightarrow> int \<Rightarrow> draft list" where
  "adjustScenes generatedScenes numScenes =
     (if int (length generatedScenes) < numScenes then pad_scenes generatedScenes numScenes
      else if int (length generatedScenes) > numScenes then slice0 generatedScenes numScenes
      else generatedScenes)"

text \<open>The loop \<open>for (i = 0; i < adjustedScenes.length; i++)\<close> that creates the scenes.\<close>

fun create_scenes ::
    "(nat \<Rightarrow> string) \<Rightarrow> string \<Rightarrow> nat \<Rightarrow> draft list \<Rightarrow> scene list \<Rightarrow> scene list \<times> scene list" where
  "create_scenes uuids stId i [] store = (store, [])"
| "create_scenes uuids stId i (sceneData # rest) store =
     (case createScene store (uuids i) stId i sceneData of
        (store', sc) \<Rightarrow>
          (case create_scenes uuids stId (Suc i) rest store' of
             (store'', objs) \<Rightarrow> (store'', sc # objs)))"

text \<open>
  \<open>generateStoryScenes(storyId, numScenes)\<close>. The inputs from outside are the reply of
  the chat service, the identifiers \<open>uuids i\<close> of the \<open>i\<close>-th created scene and the image
  service. The result is the new state and the references in \<open>sceneObjects\<close>; the state
  left behind by a call that throws is not modelled.
\<close>

definition generateStoryScenes ::
    "chat \<Rightarrow> (nat \<Rightarrow> string) \<Rightarrow> image_api \<Rightarrow> state \<Rightarrow> string \<Rightarrow> int
       \<Rightarrow> error + (state \<times> string list)" where
  "generateStoryScenes response uuids api st stId numScenes =
     (case find (\<lambda>s. story_id s = stId) (stories st) of
        None \<Rightarrow> Inl StoryNotFound
      | Some story \<Rightarrow>
          (case generateScenes response (proposal story) numScenes of
             Inl e \<Rightarrow> Inl e
           | Inr generatedScenes \<Rightarrow>
               (let adjustedScenes = adjustScenes generatedScenes numScenes;
                    (store', sceneObjects) = create_scenes uuids stId 0 adjustedScenes (scenes st);
                    refs = map sceneId sceneObjects;
                    stories' = update_first (\<lambda>s. story_id s = stId)
                                 (\<lambda>s. s\<lparr>story_scenes := refs\<rparr>) (stories st)
                in if story_style story \<noteq> []
                   then (case generateImagesForStory api store' stId (story_style story) of
                           Inl e \<Rightarrow> Inl e
                         | Inr run \<Rightarrow> Inr (\<lparr> stories = stories', scenes = run_store run \<rparr>, refs))
                   else Inr (\<lparr> stories = stories', scenes = store' \<rparr>, refs))))"

text \<open>
  \<open>getStory(storyId)\<close>: the story with its \<open>scenes\<close> rebuilt from the scene array; the
  assignment changes the stored story too.
\<close>

definition getStory :: "state \<Rightarrow> string \<Rightarrow> error + (state \<times> story)" where
  "getStory st stId =
     (case find (\<lambda>s. story_id s = stId) (stories st) of
        None \<Rightarrow> Inl StoryNotFound
      | Some story \<Rightarrow>
          (let refs = map sceneId (getScenesByStory (scenes st) stId)
           in Inr (st\<lparr>stories := update_first (\<lambda>s. story_id s = stId)
                                   (\<lambda>s. s\<lparr>story_scenes := refs\<rparr>) (stories st)\<rparr>,
                   story\<lparr>story_scenes := refs\<rparr>)))"

section \<open>Inputs of the examples\<close>

text \<open>
  A reply with one well-formed scene block (the marker line and the four labelled
  lines), a reply with four bare markers, and draft lists of one and of seven drafts.
\<close>

definition well_formed_block :: string where
  "well_formed_block =
     ''Cena 1:'' @ [LF] @ Titulo @ '': A'' @ [LF] @ Descricao @ '': B'' @ [LF]
     @ Narracao @ '': C'' @ [LF] @ Dialogo @ '': D''"

definition four_markers :: string where
  "four_markers = ''Cena 1:Cena 2:Cena 3:Cena 4:''"

definition seven_drafts :: "draft list" where
  "seven_drafts = map (default_scene ''Era uma vez'') [0 ..< 7]"

definition one_draft :: "draft list" where
  "one_draft = [\<lparr> title = ''A'', description = ''B'', narration = ''C'', dialogue = ''D'' \<rparr>]"

text \<open>A custom prompt of 1000 letters.\<close>

definition long_prompt :: string where
  "long_prompt = replicate 1000 (CHR ''a'')"

text \<open>
  A store with the three scenes of story \<open>s1\<close>, out of order, and an image service whose
  second request fails; a state with one story and no scenes; an update that carries an
  empty title and a new description; an image URL.
\<close>

definition demo_scene :: "string \<Rightarrow> nat \<Rightarrow> string \<Rightarrow> scene" where
  "demo_scene sid ord text =
     \<lparr> title = ''Cena'', description = text, narration = [], dialogue = [],
       sceneId = sid, storyId = ''s1'', order = ord, imageUrl = [] \<rparr>"

definition demo_store :: "scene list" where
  "demo_store = [demo_scene ''c'' 2 ''Um castelo'', demo_scene ''a'' 0 ''Uma floresta'',
                 demo_scene ''b'' 1 ''Um rio'']"

definition demo_api :: image_api where
  "demo_api k p = (if k = 1 then None else Some (''https://img/'' @ show_nat k))"

definition demo_state :: state where
  "demo_state =
     \<lparr> stories = [\<lparr> story_id = ''s1'', proposal = ''Era uma vez'', story_style = [],
                     story_scenes = [] \<rparr>],
       scenes = [] \<rparr>"

definition demo_updates :: scene_updates where
  "demo_updates = \<lparr> new_title = Some [], new_description = Some ''Um lago'',
                     new_narration = None, new_dialogue = None \<rparr>"

definition demo_url :: string where "demo_url = ''https://img/0''"

text \<open>
  \<open>put_urls ss us\<close> writes the \<open>k\<close>-th URL of \<open>us\<close> into the scene that has the id of the
  \<open>k\<close>-th scene of \<open>ss\<close> and leaves every other scene as it is. It describes the scene
  array after \<open>generateImagesForStory\<close>.
\<close>

definition put_urls :: "scene list \<Rightarrow> string list \<Rightarrow> scene \<Rightarrow> scene" where
  "put_urls ss us s =
     (case map_of (zip (map sceneId ss) us) (sceneId s) of
        None \<Rightarrow> s
      | Some u \<Rightarrow> s\<lparr>imageUrl := u\<rparr>)"

text \<open>A story proposal of more than 30 characters.\<close>

definition long_proposal :: string where
  "long_proposal = ''Era uma vez um gato que morava na lua''"

text \<open>
  The story \<open>s1\<close> of \<open>demo_state\<close> generated twice, first with 3 scenes and then with 5. The
  chat service answers with the well-formed block both times, and the scenes get the ids
  \<open>a0\<close>, \<open>a1\<close>, ... in the first call and \<open>b0\<close>, \<open>b1\<close>, ... in the second. Then the story is
  read back with \<open>getStory\<close>.
\<close>

definition demo_reply :: chat where
  "demo_reply = ChatReply (Some well_formed_block)"

definition ids_first :: "nat \<Rightarrow> string" where
  "ids_first i = ''a'' @ show_nat i"

definition ids_second :: "nat \<Rightarrow> string" where
  "ids_second i = ''b'' @ show_nat i"

definition generated_once :: "error + (state \<times> string list)" where
  "generated_once = generateStoryScenes demo_reply ids_first demo_api demo_state ''s1'' 3"

definition generated_twice :: "error + (state \<times> string list)" where
  "generated_twice =
     (case generated_once of
        Inl e \<Rightarrow> Inl e
      | Inr (st, refs) \<Rightarrow> generateStoryScenes demo_reply ids_second demo_api st ''s1'' 5)"

definition read_back :: "error + (state \<times> story)" where
  "read_back =
     (case generated_twice of
        Inl e \<Rightarrow> Inl e
      | Inr (st, refs) \<Rightarrow> getStory st ''s1'')"

text \<open>
  \<open>regenerated_store\<close> is the scene array after the second generation, and
  \<open>made_scene sid i\<close> is the scene that a generation creates with the id \<open>sid\<close> at index
  \<open>i\<close>: from the parsed block at index 0, from the filler of \<open>generateScenes\<close> after it.
\<close>

definition made_scene :: "string \<Rightarrow> nat \<Rightarrow> scene" where
  "made_scene sid i =
     (let d = (if i = 0 then hd one_draft else filler_scene ''Era uma vez'' i)
      in \<lparr> title = title d, description = description d, narration = narration d,
           dialogue = dialogue d,
           sceneId = sid, storyId = ''s1'', order = i, imageUrl = [] \<rparr>)"

definition regenerated_store :: "scene list" where
  "regenerated_store = (case generated_twice of Inl e \<Rightarrow> [] | Inr (st, refs) \<Rightarrow> scenes st)"

text \<open>A custom prompt that holds the consistency instruction, and one that does not.\<close>

definition sentence_prompt :: string where
  "sentence_prompt = consistency_instruction @ ''Um rio''"

definition maria_prompt :: string where
  "maria_prompt = ''Maria no parque''"

section \<open>Strings\<close>

lemma startsWith_append: "startsWith (p @ b) p"
  by (induction p) simp_all

lemma startsWith_includes: "startsWith s p \<Longrightarrow> includes_str s p"
  by (cases s; cases p) simp_all

lemma includes_str_append: "includes_str (a @ p @ b) p"
proof (induction a)
  case Nil
  show ?case by (simp add: startsWith_includes startsWith_append)
next
  case (Cons x a)
  then show ?case by simp
qed

lemma startsWith_iff: "startsWith s p \<longleftrightarrow> (\<exists>b. s = p @ b)"
  by (induction s p rule: startsWith.induct) auto

lemma includes_str_iff: "includes_str s p \<longleftrightarrow> (\<exists>a b. s = a @ p @ b)"
proof (induction s)
  case Nil
  show ?case by auto
next
  case (Cons x s)
  show ?case
  proof
    assume "includes_str (x # s) p"
    then consider "startsWith (x # s) p" | "includes_str s p" by auto
    then show "\<exists>a b. x # s = a @ p @ b"
    proof cases
      case 1
      then obtain b where "x # s = p @ b" by (auto simp: startsWith_iff)
      then have "x # s = [] @ p @ b" by simp
      then show ?thesis by blast
    next
      case 2
      with Cons.IH obtain a b where "s = a @ p @ b" by blast
      then have "x # s = (x # a) @ p @ b" by simp
      then show ?thesis by blast
    qed
  next
    assume "\<exists>a b. x # s = a @ p @ b"
    then obtain a b where ab: "x # s = a @ p @ b" by blast
    show "includes_str (x # s) p"
    proof (cases a)
      case Nil
      with ab have "startsWith (x # s) p" by (auto simp: startsWith_iff)
      then show ?thesis by simp
    next
      case (Cons y a')
      with ab have "s = a' @ p @ b" by simp
      with Cons.IH have "includes_str s p" by blast
      then show ?thesis by simp
    qed
  qed
qed

lemma includes_str_take: "includes_str (take n xs) p \<Longrightarrow> includes_str xs p"
proof -
  assume "includes_str (take n xs) p"
  then obtain a b where "take n xs = a @ p @ b" by (auto simp: includes_str_iff)
  then have "xs = a @ p @ (b @ drop n xs)"
    by (metis append_take_drop_id append.assoc)
  then show ?thesis unfolding includes_str_iff by blast
qed

lemma includes_str_head_mem: "includes_str s (c # p) \<Longrightarrow> c \<in> set s"
  by (induction s) auto

lemma includes_str_skip:
  "c \<notin> set a \<Longrightarrow> includes_str (a @ b) (c # p) \<Longrightarrow> includes_str b (c # p)"
  by (induction a) auto

lemma trim_unchanged: "s \<noteq> [] \<Longrightarrow> \<not> is_space (hd s) \<Longrightarrow> \<not> is_space (last s) \<Longrightarrow> trim s = s"
proof -
  assume a: "s \<noteq> []" "\<not> is_space (hd s)" "\<not> is_space (last s)"
  then have 1: "dropWhile is_space s = s" by (cases s) simp_all
  from a have "rev s \<noteq> []" "\<not> is_space (hd (rev s))" by (simp_all add: hd_rev)
  then have 2: "dropWhile is_space (rev s) = rev s" by (cases "rev s") simp_all
  show ?thesis by (simp add: trim_def 1 2)
qed

lemma set_trim: "set (trim s) \<subseteq> set s"
proof -
  have "set (dropWhile is_space (rev (dropWhile is_space s))) \<subseteq> set (dropWhile is_space s)"
    using set_dropWhileD [of _ is_space "rev (dropWhile is_space s)"] by auto
  moreover have "set (dropWhile is_space s) \<subseteq> set s"
    using set_dropWhileD [of _ is_space s] by auto
  ultimately show ?thesis by (auto simp: trim_def)
qed

lemma digit_char_digit: "d < 10 \<Longrightarrow> digit_char d \<in> set ''0123456789''"
  unfolding digit_char_def by (rule nth_mem) simp

lemma set_show_nat: "set (show_nat n) \<subseteq> set ''0123456789''"
proof (induction n rule: show_nat.induct)
  case (1 n)
  show ?case
  proof (cases "n < 10")
    case True
    then have "show_nat n = [digit_char n]" by (subst show_nat.simps) simp
    with True digit_char_digit [of n] show ?thesis by simp
  next
    case False
    then have eq: "show_nat n = show_nat (n div 10) @ [digit_char (n mod 10)]"
      by (subst show_nat.simps) simp
    have "n mod 10 < 10" by simp
    from digit_char_digit [OF this] "1.IH" False show ?thesis unfolding eq by simp
  qed
qed

lemma includes_str_length: "includes_str s p \<Longrightarrow> length p \<le> length s"
  by (auto simp: includes_str_iff)

lemma includes_str_butlast: "includes_str s p \<Longrightarrow> includes_str s (butlast p)"
proof (cases "p = []")
  case True
  assume "includes_str s p"
  with True show ?thesis by simp
next
  case False
  assume "includes_str s p"
  then obtain a b where "s = a @ p @ b" by (auto simp: includes_str_iff)
  with False have "s = a @ butlast p @ ([last p] @ b)"
    using append_butlast_last_id [of p] by (metis append.assoc)
  then show ?thesis unfolding includes_str_iff by blast
qed

lemma includes_str_cross:
  assumes inc: "includes_str (a @ b) p"
  shows "includes_str a (butlast p) \<or> includes_str b p
       \<or> (\<exists>k. 0 < k \<and> k + 1 < length p \<and> b \<noteq> [] \<and> take 2 b = take 2 (drop k p))"
proof -
  from inc obtain u v where uv: "a @ b = u @ p @ v" by (auto simp: includes_str_iff)
  then consider w where "a = u @ w" "w @ b = p @ v" | w where "a @ w = u" "b = w @ p @ v"
    by (auto simp: append_eq_append_conv2)
  then show ?thesis
  proof cases
    case 2
    then have "includes_str b p" unfolding includes_str_iff by blast
    then show ?thesis by simp
  next
    case 1
    from 1(2) consider z where "w = p @ z" "z @ b = v" | z where "w @ z = p" "b = z @ v"
      by (auto simp: append_eq_append_conv2)
    then show ?thesis
    proof cases
      case 1
      with \<open>a = u @ w\<close> have "a = u @ p @ z" by simp
      then have "includes_str a p" unfolding includes_str_iff by blast
      then show ?thesis by (simp add: includes_str_butlast)
    next
      case 2
      show ?thesis
      proof (cases "w = []")
        case True
        with 2 have "b = [] @ p @ v" by simp
        then have "includes_str b p" unfolding includes_str_iff by blast
        then show ?thesis by simp
      next
        case False
        show ?thesis
        proof (cases "length z \<le> 1")
          case True
          then have "z = [] \<or> (\<exists>c. z = [c])" by (cases z) auto
          then have "\<exists>r. w = butlast p @ r"
          proof
            assume "z = []"
            with 2(1) have "p = w" by simp
            with False have "w = butlast p @ [last w]" by simp
            then show ?thesis by blast
          next
            assume "\<exists>c. z = [c]"
            then obtain c where "z = [c]" by blast
            with 2(1) have "butlast p = w" by auto
            then have "w = butlast p @ []" by simp
            then show ?thesis by blast
          qed
          then obtain r where "w = butlast p @ r" by blast
          with \<open>a = u @ w\<close> have "a = u @ butlast p @ r" by simp
          then have "includes_str a (butlast p)" unfolding includes_str_iff by blast
          then show ?thesis by simp
        next
          case long: False
          from 2(1) have z: "drop (length w) p = z" by auto
          from 2(1) have len: "length p = length w + length z" by auto
          from long 2(2) have "take 2 b = take 2 z" by simp
          with z have "take 2 b = take 2 (drop (length w) p)" by simp
          moreover from False have "0 < length w" by simp
          moreover from long len have "length w + 1 < length p" by simp
          moreover from long 2(2) have "b \<noteq> []" by auto
          ultimately show ?thesis by blast
        qed
      qed
    qed
  qed
qed

lemma trim_infix: "\<exists>a b. s = a @ trim s @ b"
proof -
  define t where "t = dropWhile is_space s"
  have "rev (dropWhile is_space (rev t)) @ rev (takeWhile is_space (rev t))
          = rev (takeWhile is_space (rev t) @ dropWhile is_space (rev t))"
    by (simp only: rev_append)
  also have "\<dots> = t" by simp
  finally have "t = trim s @ rev (takeWhile is_space (rev t))"
    by (simp only: trim_def t_def)
  moreover have "s = takeWhile is_space s @ t" by (simp add: t_def)
  ultimately have "s = takeWhile is_space s @ trim s @ rev (takeWhile is_space (rev t))"
    by simp
  then show ?thesis by blast
qed

lemma includes_str_trim: "includes_str (trim s) p \<Longrightarrow> includes_str s p"
proof -
  assume "includes_str (trim s) p"
  then obtain a b where "trim s = a @ p @ b" by (auto simp: includes_str_iff)
  moreover obtain c d where "s = c @ trim s @ d" using trim_infix by blast
  ultimately have "s = (c @ a) @ p @ (b @ d)" by simp
  then show ?thesis unfolding includes_str_iff by blast
qed

section \<open>The parser\<close>

lemma block_tier_empty: "block_tier [] = []"
  by code_simp

lemma line_tier_empty: "line_tier [] = []"
  by code_simp

text \<open>
  Claim C3. \<open>processScenes\<close> is a total function without an error result: every loop of
  the source is a terminating recursion here and the source has no \<open>throw\<close>. For every
  content and every expected count from 3 to 15 the result is not empty. When the
  content is empty, or when neither the block tier nor the line tier finds a scene, the
  result is exactly the \<open>numScenes\<close> placeholders of the third tier. Placeholder \<open>i\<close> has
  the title \<open>Cena i+1\<close>, the fixed narration, an empty dialogue and the description
  \<open>Parte i+1 da historia sobre\<close> followed, between quotation marks, by the first 30
  characters of the story proposal and three dots. So every description holds the
  proposal cut to 30 characters, and it has at most 62 characters.
\<close>

theorem processScenes_never_empty:
  assumes "3 \<le> numScenes" and "numScenes \<le> 15"
  shows "processScenes content numScenes storyProposal \<noteq> []
       \<and> (content = [] \<or> block_tier content = [] \<and> line_tier content = [] \<longrightarrow>
            processScenes content numScenes storyProposal
              = map (\<lambda>i. \<lparr> title = ''Cena '' @ show_nat (i + 1),
                           description = ''Parte '' @ show_nat (i + 1) @ '' da hist'' @ [o_acute]
                             @ ''ria sobre '' @ [dquote] @ take 30 storyProposal @ ''...''
                             @ [dquote],
                           narration = ''Cena sem conte'' @ [u_acute] @ ''do espec'' @ [i_acute]
                             @ ''fico.'',
                           dialogue = [] \<rparr>)
                    [0 ..< nat numScenes]
            \<and> int (length (processScenes content numScenes storyProposal)) = numScenes
            \<and> (\<forall>d \<in> set (processScenes content numScenes storyProposal).
                  includes_str (description d) (take 30 storyProposal)
                  \<and> length (description d) \<le> 62))"
proof -
  let ?d = "\<lambda>i. \<lparr> title = ''Cena '' @ show_nat (i + 1),
                           description = ''Parte '' @ show_nat (i + 1) @ '' da hist'' @ [o_acute]
                             @ ''ria sobre '' @ [dquote] @ take 30 storyProposal @ ''...''
                             @ [dquote],
                           narration = ''Cena sem conte'' @ [u_acute] @ ''do espec'' @ [i_acute]
                             @ ''fico.'',
                           dialogue = [] \<rparr>"
  have d: "default_scene storyProposal = ?d"
    by (rule ext) (simp add: default_scene_def Cena_def historia_def)
  from assms have pos: "[0 ..< nat numScenes] \<noteq> []" by simp
  have nonempty: "processScenes content numScenes storyProposal \<noteq> []"
    using pos by (simp add: processScenes_def Let_def)
  have tiers: "block_tier content = [] \<and> line_tier content = []"
    if "content = [] \<or> block_tier content = [] \<and> line_tier content = []"
    using that block_tier_empty line_tier_empty by auto
  have fallback: "processScenes content numScenes storyProposal = map ?d [0 ..< nat numScenes]"
    if "content = [] \<or> block_tier content = [] \<and> line_tier content = []"
    using tiers [OF that] by (simp add: processScenes_def Let_def d)
  have len: "int (length (processScenes content numScenes storyProposal)) = numScenes"
    if "content = [] \<or> block_tier content = [] \<and> line_tier content = []"
    using fallback [OF that] assms by simp
  have digits: "length (show_nat (i + 1)) \<le> 2" if "i < 15" for i
  proof -
    from that have "i \<in> set [0 ..< 15]" by simp
    moreover have "\<forall>i \<in> set [0 ..< 15]. length (show_nat (i + 1)) \<le> 2" by code_simp
    ultimately show ?thesis by blast
  qed
  have each: "includes_str (description x) (take 30 storyProposal) \<and> length (description x) \<le> 62"
    if c: "content = [] \<or> block_tier content = [] \<and> line_tier content = []"
      and x: "x \<in> set (processScenes content numScenes storyProposal)" for x
  proof -
    from x fallback [OF c] obtain i where i: "i < nat numScenes" and xi: "x = ?d i" by auto
    from i assms have "i < 15" by simp
    from digits [OF this] have "length (description x) \<le> 62" by (simp add: xi)
    moreover have "description x =
          (''Parte '' @ show_nat (i + 1) @ '' da hist'' @ [o_acute] @ ''ria sobre '' @ [dquote])
          @ take 30 storyProposal @ (''...'' @ [dquote])"
      by (simp add: xi)
    then have "includes_str (description x) (take 30 storyProposal)"
      by (simp only: includes_str_append)
    ultimately show ?thesis by simp
  qed
  from nonempty fallback len each show ?thesis by blast
qed

theorem processScenes_never_empty_witness:
  "(3::int) \<le> 3 \<and> (3::int) \<le> 15
   \<and> processScenes [] 3 long_proposal \<noteq> []
   \<and> processScenes [] 3 long_proposal
       = [\<lparr> title = ''Cena 1'',
            description = ''Parte 1 da hist'' @ [o_acute] @ ''ria sobre '' @ [dquote]
              @ ''Era uma vez um gato que morava...'' @ [dquote],
            narration = ''Cena sem conte'' @ [u_acute] @ ''do espec'' @ [i_acute] @ ''fico.'',
            dialogue = [] \<rparr>,
          \<lparr> title = ''Cena 2'',
            description = ''Parte 2 da hist'' @ [o_acute] @ ''ria sobre '' @ [dquote]
              @ ''Era uma vez um gato que morava...'' @ [dquote],
            narration = ''Cena sem conte'' @ [u_acute] @ ''do espec'' @ [i_acute] @ ''fico.'',
            dialogue = [] \<rparr>,
          \<lparr> title = ''Cena 3'',
            description = ''Parte 3 da hist'' @ [o_acute] @ ''ria sobre '' @ [dquote]
              @ ''Era uma vez um gato que morava...'' @ [dquote],
            narration = ''Cena sem conte'' @ [u_acute] @ ''do espec'' @ [i_acute] @ ''fico.'',
            dialogue = [] \<rparr>]
   \<and> int (length (processScenes [] 3 long_proposal)) = 3"
proof -
  have n: "show_nat (0 + 1) = ''1''" "show_nat (1 + 1) = ''2''" "show_nat (2 + 1) = ''3''"
    by code_simp+
  have u: "[0 ..< nat 3] = [0, 1, 2]" by (simp add: upt_rec)
  have t: "take 30 long_proposal = ''Era uma vez um gato que morava''"
    by (simp add: long_proposal_def)
  note inst = processScenes_never_empty [of 3 "[]" long_proposal]
  from inst have a: "processScenes [] 3 long_proposal \<noteq> []" by simp
  from inst have b: "processScenes [] 3 long_proposal
              = map (\<lambda>i. \<lparr> title = ''Cena '' @ show_nat (i + 1),
                           description = ''Parte '' @ show_nat (i + 1) @ '' da hist'' @ [o_acute]
                             @ ''ria sobre '' @ [dquote] @ take 30 long_proposal @ ''...''
                             @ [dquote],
                           narration = ''Cena sem conte'' @ [u_acute] @ ''do espec'' @ [i_acute]
                             @ ''fico.'',
                           dialogue = [] \<rparr>)
                    [0 ..< nat 3]" by simp
  from inst have c: "int (length (processScenes [] 3 long_proposal)) = 3" by simp
  have d: "(3::int) \<le> 3 \<and> (3::int) \<le> 15" by simp
  show ?thesis
    apply (intro conjI)
    using d apply simp
    using d apply simp
    using a apply simp
    apply (simp only: b u t list.map n)
    apply simp
    using c apply simp
    done
qed

lemma block_tier_well_formed_block:
  "block_tier well_formed_block =
     [\<lparr> title = ''A'', description = ''B'', narration = ''C'', dialogue = ''D'' \<rparr>]"
  by code_simp

lemma processScenes_block:
  "processScenes well_formed_block n p =
     [\<lparr> title = ''A'', description = ''B'', narration = ''C'', dialogue = ''D'' \<rparr>]"
  by (simp add: processScenes_def Let_def block_tier_well_formed_block)

text \<open>
  Claim C4. The block made of the marker line \<open>Cena 1:\<close> and the four labelled lines with
  the contents A, B, C and D parses to exactly one draft, with title A, description B,
  narration C and dialogue D, whatever the expected count and the story proposal are.
\<close>

theorem processScenes_well_formed_block:
  "processScenes well_formed_block numScenes storyProposal =
     [\<lparr> title = ''A'', description = ''B'', narration = ''C'', dialogue = ''D'' \<rparr>]"
  by (simp add: processScenes_def Let_def block_tier_well_formed_block)

lemma block_tier_four_markers:
  "block_tier four_markers =
     [\<lparr> title = ''Cena 1'', description = [], narration = [], dialogue = [] \<rparr>,
      \<lparr> title = ''Cena 2'', description = [], narration = [], dialogue = [] \<rparr>,
      \<lparr> title = ''Cena 3'', description = [], narration = [], dialogue = [] \<rparr>,
      \<lparr> title = ''Cena 4'', description = [], narration = [], dialogue = [] \<rparr>]"
  by code_simp

lemma length_processScenes_four_markers: "length (processScenes four_markers n p) = 4"
  by (simp add: processScenes_def Let_def block_tier_four_markers)

section \<open>Reconciliation against the requested count\<close>

lemma scenes_of_content_eq:
  assumes "a = min (max n 3) 15"
  shows "scenes_of_content content p n =
     (if int (length (processScenes content a p)) < a
      then processScenes content a p
           @ map (filler_scene p) [length (processScenes content a p) ..< nat a]
      else take (nat a) (processScenes content a p))"
  unfolding scenes_of_content_def Let_def assms [symmetric] by simp

lemma length_scenes_of_content:
  assumes "a = min (max n 3) 15"
  shows "int (length (scenes_of_content content p n)) = a"
proof -
  define xs where "xs = processScenes content a p"
  have a: "0 \<le> a" using assms by simp
  have eq: "scenes_of_content content p n =
      (if int (length xs) < a then xs @ map (filler_scene p) [length xs ..< nat a]
       else take (nat a) xs)"
    unfolding xs_def by (rule scenes_of_content_eq [OF assms])
  show ?thesis
  proof (cases "int (length xs) < a")
    case True
    then have "length xs \<le> nat a" by linarith
    then have "length (xs @ map (filler_scene p) [length xs ..< nat a]) = nat a" by simp
    with True eq a show ?thesis by simp
  next
    case False
    then have "nat a \<le> length xs" by linarith
    then have "length (take (nat a) xs) = nat a" by simp
    with False eq a show ?thesis by simp
  qed
qed

lemma scenes_of_content_in_range:
  assumes "3 \<le> n" "n \<le> 15"
  shows "scenes_of_content content p n =
     (if int (length (processScenes content n p)) < n
      then processScenes content n p
           @ map (filler_scene p) [length (processScenes content n p) ..< nat n]
      else take (nat n) (processScenes content n p))"
proof -
  from assms have "n = min (max n 3) 15" by simp
  then show ?thesis by (rule scenes_of_content_eq)
qed

lemma fill_nth:
  assumes "length xs \<le> i" "i < k"
  shows "(xs @ map f [length xs ..< k]) ! i = f i"
proof -
  from assms have "(xs @ map f [length xs ..< k]) ! i = map f [length xs ..< k] ! (i - length xs)"
    by (simp add: nth_append)
  also from assms have "\<dots> = f i" by simp
  finally show ?thesis .
qed

lemma filler_scene_fields:
  "title (filler_scene p i) = Cena @ '' '' @ show_nat (i + 1)"
  "description (filler_scene p i) = Continuacao @ '' da '' @ historia @ '' em '' @ take 50 p @ ''...''"
  "narration (filler_scene p i) = ''A '' @ historia @ '' continua...''"
  "dialogue (filler_scene p i) = []"
  by (simp_all add: filler_scene_def)

lemma pad_scenes_step:
  "int (length xs) < n \<Longrightarrow> pad_scenes xs n = pad_scenes (xs @ [newScene xs]) n"
  by (subst pad_scenes.simps) simp

lemma pad_scenes_done: "\<not> int (length xs) < n \<Longrightarrow> pad_scenes xs n = xs"
  by (subst pad_scenes.simps) simp

lemma length_pad_scenes:
  "int (length xs) \<le> n \<Longrightarrow> int (length (pad_scenes xs n)) = n"
proof (induction xs n rule: pad_scenes.induct)
  case (1 xs n)
  show ?case
  proof (cases "int (length xs) < n")
    case True
    then have "int (length (xs @ [newScene xs])) \<le> n" by simp
    with "1.IH" True have "int (length (pad_scenes (xs @ [newScene xs]) n)) = n" by blast
    with True show ?thesis by (subst pad_scenes.simps) simp
  next
    case False
    with "1.prems" show ?thesis by (subst pad_scenes.simps) simp
  qed
qed

lemma pad_scenes_prefix: "take (length xs) (pad_scenes xs n) = xs"
proof (induction xs n rule: pad_scenes.induct)
  case (1 xs n)
  show ?case
  proof (cases "int (length xs) < n")
    case True
    with "1.IH" have "take (Suc (length xs)) (pad_scenes (xs @ [newScene xs]) n) = xs @ [newScene xs]"
      by simp
    then have "take (length xs) (take (Suc (length xs)) (pad_scenes (xs @ [newScene xs]) n)) = xs"
      by simp
    then have "take (length xs) (pad_scenes (xs @ [newScene xs]) n) = xs"
      by (simp add: min_def)
    with True show ?thesis by (simp add: pad_scenes_step)
  next
    case False
    then show ?thesis by (simp add: pad_scenes_done)
  qed
qed

lemma pad_scenes_nth:
  "length xs \<le> i \<Longrightarrow> int i < n \<Longrightarrow> pad_scenes xs n ! i = newScene (take i (pad_scenes xs n))"
proof (induction xs n rule: pad_scenes.induct)
  case (1 xs n)
  from "1.prems" have lt: "int (length xs) < n" by linarith
  have step: "pad_scenes xs n = pad_scenes (xs @ [newScene xs]) n"
    using lt by (rule pad_scenes_step)
  show ?case
  proof (cases "i = length xs")
    case True
    have pre: "take (Suc (length xs)) (pad_scenes (xs @ [newScene xs]) n) = xs @ [newScene xs]"
      using pad_scenes_prefix [of "xs @ [newScene xs]" n] by simp
    have len: "int (length (pad_scenes (xs @ [newScene xs]) n)) = n"
      using lt by (intro length_pad_scenes) simp
    with lt have lenr: "length xs < length (pad_scenes (xs @ [newScene xs]) n)" by linarith
    have "pad_scenes (xs @ [newScene xs]) n ! length xs
            = take (Suc (length xs)) (pad_scenes (xs @ [newScene xs]) n) ! length xs"
      by simp
    also have "\<dots> = newScene xs" by (simp only: pre) simp
    finally have a: "pad_scenes xs n ! i = newScene xs" using True step by simp
    have "take (length xs) (pad_scenes xs n) = xs" by (rule pad_scenes_prefix)
    with a True show ?thesis by simp
  next
    case False
    with "1.prems" have "length (xs @ [newScene xs]) \<le> i" by simp
    with "1.IH" lt "1.prems" have
      "pad_scenes (xs @ [newScene xs]) n ! i = newScene (take i (pad_scenes (xs @ [newScene xs]) n))"
      by blast
    with step show ?thesis by simp
  qed
qed

lemma newScene_fields:
  "title (newScene xs) = Cena @ '' '' @ show_nat (length xs + 1)"
  "xs = [] \<Longrightarrow> description (newScene xs) = ''Nova cena''"
  "xs = [] \<Longrightarrow> narration (newScene xs) = Narracao @ '' da cena''"
  "xs = [] \<Longrightarrow> dialogue (newScene xs) = []"
  "xs \<noteq> [] \<Longrightarrow> description (newScene xs) = Continuacao @ '': '' @ description (last xs)"
  "xs \<noteq> [] \<Longrightarrow> narration (newScene xs) = narration (last xs)"
  "xs \<noteq> [] \<Longrightarrow> dialogue (newScene xs) = dialogue (last xs)"
  by (simp_all add: newScene_def Let_def)

lemma last_take_nth: "0 < i \<Longrightarrow> i \<le> length r \<Longrightarrow> last (take i r) = r ! (i - 1)"
  by (cases i) (simp_all add: take_Suc_conv_app_nth)

lemma adjustScenes_pad: "int (length xs) < m \<Longrightarrow> adjustScenes xs m = pad_scenes xs m"
  by (simp add: adjustScenes_def)

lemma adjustScenes_cut: "0 \<le> m \<Longrightarrow> m < int (length xs) \<Longrightarrow> adjustScenes xs m = take (nat m) xs"
  by (simp add: adjustScenes_def slice0_def)

lemma length_adjustScenes: "0 \<le> n \<Longrightarrow> int (length (adjustScenes xs n)) = n"
  by (auto simp: adjustScenes_def slice0_def length_pad_scenes)

lemma adjustScenes_same_length: "int (length xs) = n \<Longrightarrow> adjustScenes xs n = xs"
  by (simp add: adjustScenes_def)

lemma reconcile_in_range:
  assumes "3 \<le> n" "n \<le> 15"
  shows "adjustScenes (scenes_of_content content p n) n = scenes_of_content content p n"
proof -
  from assms have "n = min (max n 3) 15" by simp
  then have "int (length (scenes_of_content content p n)) = n"
    by (rule length_scenes_of_content)
  then show ?thesis by (rule adjustScenes_same_length)
qed

lemma scenes_of_content_fill:
  assumes r: "3 \<le> n" "n \<le> 15"
    and few: "int (length (processScenes content n p)) < n"
  shows "adjustScenes (scenes_of_content content p n) n
           = processScenes content n p
             @ map (filler_scene p) [length (processScenes content n p) ..< nat n]"
  using scenes_of_content_in_range [OF r, of content p] reconcile_in_range [OF r, of content p] few
  by simp

lemma pad_scenes_fields:
  assumes short: "int (length xs) < m" and i: "length xs \<le> i" "int i < m"
  shows "title (adjustScenes xs m ! i) = Cena @ '' '' @ show_nat (i + 1)"
    and "i = 0 \<Longrightarrow> description (adjustScenes xs m ! i) = ''Nova cena''
                   \<and> narration (adjustScenes xs m ! i) = Narracao @ '' da cena''
                   \<and> dialogue (adjustScenes xs m ! i) = []"
    and "0 < i \<Longrightarrow> description (adjustScenes xs m ! i)
                       = Continuacao @ '': '' @ description (adjustScenes xs m ! (i - 1))
                   \<and> narration (adjustScenes xs m ! i) = narration (adjustScenes xs m ! (i - 1))
                   \<and> dialogue (adjustScenes xs m ! i) = dialogue (adjustScenes xs m ! (i - 1))"
proof -
  define r where "r = pad_scenes xs m"
  have adj: "adjustScenes xs m = r" using short by (simp add: adjustScenes_pad r_def)
  have nth: "r ! i = newScene (take i r)" unfolding r_def using i by (rule pad_scenes_nth)
  have "int (length r) = m" unfolding r_def using short by (intro length_pad_scenes) simp
  with i have ilen: "i \<le> length r" by linarith
  then have lt: "length (take i r) = i" by simp
  have "title (newScene (take i r)) = Cena @ '' '' @ show_nat (length (take i r) + 1)"
    by (rule newScene_fields)
  then show "title (adjustScenes xs m ! i) = Cena @ '' '' @ show_nat (i + 1)"
    unfolding lt by (simp add: adj nth)
  show "description (adjustScenes xs m ! i) = ''Nova cena''
          \<and> narration (adjustScenes xs m ! i) = Narracao @ '' da cena''
          \<and> dialogue (adjustScenes xs m ! i) = []" if "i = 0"
  proof -
    from that nth have "r ! i = newScene []" by simp
    then show ?thesis by (simp add: adj newScene_fields)
  qed
  show "description (adjustScenes xs m ! i)
            = Continuacao @ '': '' @ description (adjustScenes xs m ! (i - 1))
          \<and> narration (adjustScenes xs m ! i) = narration (adjustScenes xs m ! (i - 1))
          \<and> dialogue (adjustScenes xs m ! i) = dialogue (adjustScenes xs m ! (i - 1))" if "0 < i"
  proof -
    from that lt have ne: "take i r \<noteq> []" by auto
    from that ilen have "last (take i r) = r ! (i - 1)" by (rule last_take_nth)
    with ne show ?thesis by (simp add: adj nth newScene_fields)
  qed
qed

text \<open>
  Claim C6. When the parser returns more drafts than a target from 3 to 15,
  \<open>generateScenes\<close> followed by the adjustment of \<open>generateStoryScenes\<close> yields exactly the
  first \<open>numScenes\<close> parsed drafts. The adjustment of \<open>generateStoryScenes\<close>, taken alone
  on any list longer than a count \<open>m \<ge> 0\<close>, keeps the first \<open>m\<close> drafts unchanged and
  drops the rest.
\<close>

theorem truncation_keeps_first:
  "(3 \<le> numScenes \<and> numScenes \<le> 15
      \<and> numScenes < int (length (processScenes content numScenes storyProposal)) \<longrightarrow>
      adjustScenes (scenes_of_content content storyProposal numScenes) numScenes
        = take (nat numScenes) (processScenes content numScenes storyProposal))
   \<and> (0 \<le> m \<and> m < int (length generatedScenes) \<longrightarrow>
        adjustScenes generatedScenes m = take (nat m) generatedScenes
        \<and> int (length (adjustScenes generatedScenes m)) = m
        \<and> (\<forall>i < nat m. adjustScenes generatedScenes m ! i = generatedScenes ! i))"
proof -
  have first: "adjustScenes (scenes_of_content content storyProposal numScenes) numScenes
        = take (nat numScenes) (processScenes content numScenes storyProposal)"
    if r: "3 \<le> numScenes" "numScenes \<le> 15"
      and more: "numScenes < int (length (processScenes content numScenes storyProposal))"
  proof -
    from more have "\<not> int (length (processScenes content numScenes storyProposal)) < numScenes"
      by simp
    then have "scenes_of_content content storyProposal numScenes
        = take (nat numScenes) (processScenes content numScenes storyProposal)"
      using scenes_of_content_in_range [OF r, of content storyProposal] by simp
    with reconcile_in_range [OF r, of content storyProposal] show ?thesis by simp
  qed
  have second: "adjustScenes generatedScenes m = take (nat m) generatedScenes
        \<and> int (length (adjustScenes generatedScenes m)) = m
        \<and> (\<forall>i < nat m. adjustScenes generatedScenes m ! i = generatedScenes ! i)"
    if "0 \<le> m" "m < int (length generatedScenes)"
    using that by (simp add: adjustScenes_cut)
  from first second show ?thesis by blast
qed

theorem truncation_keeps_first_witness:
  "(3::int) \<le> 3 \<and> (3::int) \<le> 15
   \<and> 3 < int (length (processScenes four_markers 3 ''Era uma vez''))
   \<and> adjustScenes (scenes_of_content four_markers ''Era uma vez'' 3) 3
        = take 3 (processScenes four_markers 3 ''Era uma vez'')
   \<and> (0::int) \<le> 5 \<and> 5 < int (length seven_drafts)
   \<and> adjustScenes seven_drafts 5 = take 5 seven_drafts"
  using truncation_keeps_first [of 3 four_markers "''Era uma vez''" 5 seven_drafts]
  by (simp add: length_processScenes_four_markers seven_drafts_def)

text \<open>
  Claim C5, as amended. The claim describes the drafts appended to a short parse by the
  loop of \<open>generateStoryScenes\<close>. In the pipeline a short parse is filled up earlier, by
  \<open>generateScenes\<close>, with other drafts. For a target from 3 to 15 the drafts appended after
  the parsed ones have the title \<open>Cena i+1\<close>, a description that continues the story
  proposal (its first 50 characters), the fixed narration and an empty dialogue. The loop
  of \<open>generateStoryScenes\<close>, on a list shorter than the count \<open>m\<close>, keeps the list and
  appends drafts with the title \<open>Cena i+1\<close>; the draft at index 0 has the description
  \<open>Nova cena\<close>, the fixed narration and an empty dialogue, and every later one has the
  description of its predecessor behind the prefix \<open>Continuacao: \<close> and the narration
  and dialogue of its predecessor.
\<close>

theorem padding_of_both_stages:
  "(3 \<le> numScenes \<and> numScenes \<le> 15
      \<and> int (length (processScenes content numScenes storyProposal)) < numScenes \<longrightarrow>
      take (length (processScenes content numScenes storyProposal))
           (adjustScenes (scenes_of_content content storyProposal numScenes) numScenes)
        = processScenes content numScenes storyProposal
      \<and> (\<forall>i. length (processScenes content numScenes storyProposal) \<le> i \<and> int i < numScenes \<longrightarrow>
             adjustScenes (scenes_of_content content storyProposal numScenes) numScenes ! i
               = \<lparr> title = Cena @ '' '' @ show_nat (i + 1),
                   description = Continuacao @ '' da '' @ historia @ '' em ''
                                 @ take 50 storyProposal @ ''...'',
                   narration = ''A '' @ historia @ '' continua...'',
                   dialogue = [] \<rparr>))
   \<and> (int (length generatedScenes) < m \<longrightarrow>
        take (length generatedScenes) (adjustScenes generatedScenes m) = generatedScenes
        \<and> (\<forall>i. length generatedScenes \<le> i \<and> int i < m \<longrightarrow>
               title (adjustScenes generatedScenes m ! i) = Cena @ '' '' @ show_nat (i + 1)
               \<and> (i = 0 \<longrightarrow>
                     description (adjustScenes generatedScenes m ! i) = ''Nova cena''
                   \<and> narration (adjustScenes generatedScenes m ! i) = Narracao @ '' da cena''
                   \<and> dialogue (adjustScenes generatedScenes m ! i) = [])
               \<and> (0 < i \<longrightarrow>
                     description (adjustScenes generatedScenes m ! i)
                       = Continuacao @ '': ''
                         @ description (adjustScenes generatedScenes m ! (i - 1))
                   \<and> narration (adjustScenes generatedScenes m ! i)
                       = narration (adjustScenes generatedScenes m ! (i - 1))
                   \<and> dialogue (adjustScenes generatedScenes m ! i)
                       = dialogue (adjustScenes generatedScenes m ! (i - 1)))))"
proof -
  have first: "take (length (processScenes content numScenes storyProposal))
           (adjustScenes (scenes_of_content content storyProposal numScenes) numScenes)
        = processScenes content numScenes storyProposal
      \<and> (\<forall>i. length (processScenes content numScenes storyProposal) \<le> i \<and> int i < numScenes \<longrightarrow>
             adjustScenes (scenes_of_content content storyProposal numScenes) numScenes ! i
               = \<lparr> title = Cena @ '' '' @ show_nat (i + 1),
                   description = Continuacao @ '' da '' @ historia @ '' em ''
                                 @ take 50 storyProposal @ ''...'',
                   narration = ''A '' @ historia @ '' continua...'',
                   dialogue = [] \<rparr>)"
    if r: "3 \<le> numScenes" "numScenes \<le> 15"
      and few: "int (length (processScenes content numScenes storyProposal)) < numScenes"
  proof -
    note eq = scenes_of_content_fill [OF r few]
    have "\<And>i. length (processScenes content numScenes storyProposal) \<le> i \<Longrightarrow> int i < numScenes \<Longrightarrow>
             adjustScenes (scenes_of_content content storyProposal numScenes) numScenes ! i
               = filler_scene storyProposal i"
      unfolding eq by (rule fill_nth) simp_all
    then show ?thesis by (simp add: eq filler_scene_def)
  qed
  have second: "take (length generatedScenes) (adjustScenes generatedScenes m) = generatedScenes"
    if "int (length generatedScenes) < m"
    using that by (simp add: adjustScenes_pad pad_scenes_prefix)
  from first second pad_scenes_fields [of generatedScenes m] show ?thesis by blast
qed

theorem padding_of_both_stages_witness:
  "(3::int) \<le> 3 \<and> (3::int) \<le> 15
   \<and> int (length (processScenes well_formed_block 3 ''Era uma vez'')) < 3
   \<and> adjustScenes (scenes_of_content well_formed_block ''Era uma vez'' 3) 3 ! 1
       = \<lparr> title = Cena @ '' '' @ show_nat (1 + 1),
           description = Continuacao @ '' da '' @ historia @ '' em ''
                         @ take 50 ''Era uma vez'' @ ''...'',
           narration = ''A '' @ historia @ '' continua...'',
           dialogue = [] \<rparr>
   \<and> int (length one_draft) < 3
   \<and> description (adjustScenes one_draft 3 ! 1)
       = Continuacao @ '': '' @ description (adjustScenes one_draft 3 ! (1 - 1))
   \<and> narration (adjustScenes one_draft 3 ! 1) = narration (adjustScenes one_draft 3 ! (1 - 1))"
proof -
  have h1: "(3::int) \<le> 3 \<and> (3::int) \<le> 15
            \<and> int (length (processScenes well_formed_block 3 ''Era uma vez'')) < 3"
    by (simp add: processScenes_block)
  have h2: "int (length one_draft) < 3" by (simp add: one_draft_def)
  have h3: "length (processScenes well_formed_block 3 ''Era uma vez'') \<le> 1 \<and> int 1 < 3"
    by (simp add: processScenes_block)
  have h4: "length one_draft \<le> 1 \<and> int 1 < 3" by (simp add: one_draft_def)
  note t = padding_of_both_stages [of 3 well_formed_block "''Era uma vez''" one_draft 3]
  note a = t [THEN conjunct1, THEN mp, OF h1, THEN conjunct2, THEN spec, of 1, THEN mp, OF h3]
  note b = t [THEN conjunct2, THEN mp, OF h2, THEN conjunct2, THEN spec, of 1, THEN mp, OF h4]
  from b have c: "description (adjustScenes one_draft 3 ! 1)
       = Continuacao @ '': '' @ description (adjustScenes one_draft 3 ! (1 - 1))
     \<and> narration (adjustScenes one_draft 3 ! 1) = narration (adjustScenes one_draft 3 ! (1 - 1))"
    by simp
  from h1 h2 a c show ?thesis by simp
qed

text \<open>
  The claim as stated fails on the reply with one well-formed block and target 3: the
  draft appended at index 1 neither continues the description of the draft before it nor
  copies its narration or dialogue.
\<close>

theorem padding_claim_counterexample:
  "length (processScenes well_formed_block 3 ''Era uma vez'') = 1
   \<and> description (adjustScenes (scenes_of_content well_formed_block ''Era uma vez'' 3) 3 ! 1)
       \<noteq> Continuacao @ '': ''
          @ description (adjustScenes (scenes_of_content well_formed_block ''Era uma vez'' 3) 3 ! 0)
   \<and> narration (adjustScenes (scenes_of_content well_formed_block ''Era uma vez'' 3) 3 ! 1)
       \<noteq> narration (adjustScenes (scenes_of_content well_formed_block ''Era uma vez'' 3) 3 ! 0)
   \<and> dialogue (adjustScenes (scenes_of_content well_formed_block ''Era uma vez'' 3) 3 ! 1)
       \<noteq> dialogue (adjustScenes (scenes_of_content well_formed_block ''Era uma vez'' 3) 3 ! 0)"
proof -
  define r where "r = adjustScenes (scenes_of_content well_formed_block ''Era uma vez'' 3) 3"
  have few: "int (length (processScenes well_formed_block 3 ''Era uma vez'')) < 3"
    by (simp add: processScenes_block)
  have eq: "r = processScenes well_formed_block 3 ''Era uma vez''
               @ map (filler_scene ''Era uma vez'')
                   [length (processScenes well_formed_block 3 ''Era uma vez'') ..< nat 3]"
    unfolding r_def by (rule scenes_of_content_fill [OF _ _ few]) simp_all
  have r0: "r ! 0 = \<lparr> title = ''A'', description = ''B'', narration = ''C'', dialogue = ''D'' \<rparr>"
    by (simp add: eq processScenes_block)
  have "r ! 1 = filler_scene ''Era uma vez'' 1"
    unfolding eq by (rule fill_nth) (simp_all add: processScenes_block)
  then have r1: "description (r ! 1) = Continuacao @ '' da '' @ historia @ '' em Era uma vez...''"
    "narration (r ! 1) = ''A '' @ historia @ '' continua...''" "dialogue (r ! 1) = []"
    by (simp_all add: filler_scene_def)
  have "length (processScenes well_formed_block 3 ''Era uma vez'') = 1"
    by (simp add: processScenes_block)
  moreover have "description (r ! 1) \<noteq> Continuacao @ '': '' @ description (r ! 0)"
    by (simp only: r0 r1) (simp add: Continuacao_def)
  moreover have "narration (r ! 1) \<noteq> narration (r ! 0)"
    by (simp only: r0 r1) simp
  moreover have "dialogue (r ! 1) \<noteq> dialogue (r ! 0)"
    by (simp only: r0 r1) simp
  ultimately show ?thesis unfolding r_def by blast
qed

section \<open>The scene store\<close>

lemma update_first_map:
  "(\<And>x. g (f x) = g x) \<Longrightarrow> map g (update_first P f xs) = map g xs"
  by (induction xs) simp_all

lemma length_update_first: "length (update_first P f xs) = length xs"
  by (induction xs) simp_all

lemma update_first_keeps: "r \<in> set xs \<Longrightarrow> \<not> P r \<Longrightarrow> r \<in> set (update_first P f xs)"
  by (induction xs) auto

lemma find_split:
  "find P xs = Some x \<Longrightarrow>
     \<exists>pre post. xs = pre @ x # post \<and> (\<forall>y \<in> set pre. \<not> P y) \<and> P x
                \<and> update_first P f xs = pre @ f x # post"
proof (induction xs)
  case Nil
  then show ?case by simp
next
  case (Cons a xs)
  show ?case
  proof (cases "P a")
    case True
    with Cons.prems have "a = x" by simp
    with True have "a # xs = [] @ x # xs \<and> (\<forall>y \<in> set []. \<not> P y) \<and> P x
                \<and> update_first P f (a # xs) = [] @ f x # xs" by simp
    then show ?thesis by blast
  next
    case False
    with Cons.prems have "find P xs = Some x" by simp
    with Cons.IH obtain pre post where
      "xs = pre @ x # post" "\<forall>y \<in> set pre. \<not> P y" "P x" "update_first P f xs = pre @ f x # post"
      by blast
    with False have "a # xs = (a # pre) @ x # post \<and> (\<forall>y \<in> set (a # pre). \<not> P y) \<and> P x
                \<and> update_first P f (a # xs) = (a # pre) @ f x # post" by simp
    then show ?thesis by blast
  qed
qed

lemma find_update_first:
  "(\<And>x. P (f x) = P x) \<Longrightarrow> find P (update_first P f xs) = map_option f (find P xs)"
  by (induction xs) simp_all

lemma find_distinct_member:
  "distinct (map g xs) \<Longrightarrow> x \<in> set xs \<Longrightarrow> find (\<lambda>y. g y = g x) xs = Some x"
proof (induction xs)
  case Nil
  then show ?case by simp
next
  case (Cons a xs)
  then show ?case by (cases "a = x") (auto simp: image_iff)
qed

lemma update_first_distinct:
  "distinct (map g xs) \<Longrightarrow>
     update_first (\<lambda>y. g y = a) f xs = map (\<lambda>y. if g y = a then f y else y) xs"
proof (induction xs)
  case Nil
  then show ?case by simp
next
  case (Cons x xs)
  show ?case
  proof (cases "g x = a")
    case True
    from Cons.prems have "g x \<notin> g ` set xs" by simp
    with True have "\<forall>y \<in> set xs. g y \<noteq> a" by (metis imageI)
    then have "map (\<lambda>y. if g y = a then f y else y) xs = xs" by (simp add: map_idI)
    with True show ?thesis by simp
  next
    case False
    with Cons show ?thesis by simp
  qed
qed

lemma apply_updates_fields:
  "title (apply_updates u sc) = (if truthy (new_title u) then the (new_title u) else title sc)"
  "description (apply_updates u sc)
     = (if truthy (new_description u) then the (new_description u) else description sc)"
  "narration (apply_updates u sc)
     = (if truthy (new_narration u) then the (new_narration u) else narration sc)"
  "dialogue (apply_updates u sc)
     = (if truthy (new_dialogue u) then the (new_dialogue u) else dialogue sc)"
  "sceneId (apply_updates u sc) = sceneId sc"
  "storyId (apply_updates u sc) = storyId sc"
  "order (apply_updates u sc) = order sc"
  "imageUrl (apply_updates u sc) = imageUrl sc"
  by (simp_all add: apply_updates_def Let_def)

text \<open>
  Claim C10. \<open>updateScene\<close> on a scene that exists changes that scene only, and of it
  only the text fields whose new value is a string that is not empty: a field whose new
  value is absent or the empty string keeps its old value, and \<open>id\<close>, \<open>storyId\<close>,
  \<open>order\<close> and \<open>imageUrl\<close> keep theirs. The scenes before and after it in the array stay
  as they are.
\<close>

theorem updateScene_frame:
  assumes "find_scene store sid = Some sc"
  shows "\<exists>pre post sc'.
           updateScene store sid updates = Inr (pre @ sc' # post, sc')
         \<and> store = pre @ sc # post
         \<and> (\<forall>s \<in> set pre. sceneId s \<noteq> sid)
         \<and> sceneId sc' = sceneId sc \<and> storyId sc' = storyId sc
         \<and> order sc' = order sc \<and> imageUrl sc' = imageUrl sc
         \<and> title sc' = (case new_title updates of
                          Some t \<Rightarrow> if t \<noteq> [] then t else title sc | None \<Rightarrow> title sc)
         \<and> description sc' = (case new_description updates of
                          Some t \<Rightarrow> if t \<noteq> [] then t else description sc | None \<Rightarrow> description sc)
         \<and> narration sc' = (case new_narration updates of
                          Some t \<Rightarrow> if t \<noteq> [] then t else narration sc | None \<Rightarrow> narration sc)
         \<and> dialogue sc' = (case new_dialogue updates of
                          Some t \<Rightarrow> if t \<noteq> [] then t else dialogue sc | None \<Rightarrow> dialogue sc)"
proof -
  from assms have "find (\<lambda>s. sceneId s = sid) store = Some sc" by (simp add: find_scene_def)
  from find_split [OF this, of "apply_updates updates"] obtain pre post where
    s: "store = pre @ sc # post" and pre: "\<forall>y \<in> set pre. sceneId y \<noteq> sid"
    and upd: "update_first (\<lambda>s. sceneId s = sid) (apply_updates updates) store
                = pre @ apply_updates updates sc # post"
    by blast
  have res: "updateScene store sid updates
          = Inr (pre @ apply_updates updates sc # post, apply_updates updates sc)"
    using assms upd by (simp add: updateScene_def update_found_def)
  have fields: "title (apply_updates updates sc) = (case new_title updates of
                          Some t \<Rightarrow> if t \<noteq> [] then t else title sc | None \<Rightarrow> title sc)"
    "description (apply_updates updates sc) = (case new_description updates of
                          Some t \<Rightarrow> if t \<noteq> [] then t else description sc | None \<Rightarrow> description sc)"
    "narration (apply_updates updates sc) = (case new_narration updates of
                          Some t \<Rightarrow> if t \<noteq> [] then t else narration sc | None \<Rightarrow> narration sc)"
    "dialogue (apply_updates updates sc) = (case new_dialogue updates of
                          Some t \<Rightarrow> if t \<noteq> [] then t else dialogue sc | None \<Rightarrow> dialogue sc)"
    by (simp_all add: apply_updates_fields truthy_def split: option.splits)
  from res s pre fields apply_updates_fields(5-8) [of updates sc] show ?thesis by blast
qed

theorem updateScene_frame_witness:
  "find_scene demo_store ''b'' = Some (demo_scene ''b'' 1 ''Um rio'')
   \<and> (\<exists>pre post sc'.
         updateScene demo_store ''b'' demo_updates = Inr (pre @ sc' # post, sc')
       \<and> demo_store = pre @ demo_scene ''b'' 1 ''Um rio'' # post
       \<and> sceneId sc' = ''b'' \<and> storyId sc' = ''s1'' \<and> order sc' = 1 \<and> imageUrl sc' = []
       \<and> title sc' = ''Cena'' \<and> description sc' = ''Um lago''
       \<and> narration sc' = [] \<and> dialogue sc' = [])"
proof -
  have h: "find_scene demo_store ''b'' = Some (demo_scene ''b'' 1 ''Um rio'')"
    by (simp add: find_scene_def demo_store_def demo_scene_def)
  from updateScene_frame [OF h, of demo_updates] obtain pre post sc' where
    "updateScene demo_store ''b'' demo_updates = Inr (pre @ sc' # post, sc')"
    "demo_store = pre @ demo_scene ''b'' 1 ''Um rio'' # post"
    "sceneId sc' = sceneId (demo_scene ''b'' 1 ''Um rio'')"
    "storyId sc' = storyId (demo_scene ''b'' 1 ''Um rio'')"
    "order sc' = order (demo_scene ''b'' 1 ''Um rio'')"
    "imageUrl sc' = imageUrl (demo_scene ''b'' 1 ''Um rio'')"
    "title sc' = (case new_title demo_updates of
                    Some t \<Rightarrow> if t \<noteq> [] then t else title (demo_scene ''b'' 1 ''Um rio'')
                  | None \<Rightarrow> title (demo_scene ''b'' 1 ''Um rio''))"
    "description sc' = (case new_description demo_updates of
                    Some t \<Rightarrow> if t \<noteq> [] then t else description (demo_scene ''b'' 1 ''Um rio'')
                  | None \<Rightarrow> description (demo_scene ''b'' 1 ''Um rio''))"
    "narration sc' = (case new_narration demo_updates of
                    Some t \<Rightarrow> if t \<noteq> [] then t else narration (demo_scene ''b'' 1 ''Um rio'')
                  | None \<Rightarrow> narration (demo_scene ''b'' 1 ''Um rio''))"
    "dialogue sc' = (case new_dialogue demo_updates of
                    Some t \<Rightarrow> if t \<noteq> [] then t else dialogue (demo_scene ''b'' 1 ''Um rio'')
                  | None \<Rightarrow> dialogue (demo_scene ''b'' 1 ''Um rio''))"
    by blast
  then have "updateScene demo_store ''b'' demo_updates = Inr (pre @ sc' # post, sc')
       \<and> demo_store = pre @ demo_scene ''b'' 1 ''Um rio'' # post
       \<and> sceneId sc' = ''b'' \<and> storyId sc' = ''s1'' \<and> order sc' = 1 \<and> imageUrl sc' = []
       \<and> title sc' = ''Cena'' \<and> description sc' = ''Um lago''
       \<and> narration sc' = [] \<and> dialogue sc' = []"
    by (simp add: demo_scene_def demo_updates_def)
  with h show ?thesis by blast
qed

section \<open>Generating the images of a story\<close>

lemma generateImage_nonempty: "generateImage api k prompt style sc prev \<noteq> []"
  by (simp add: generateImage_def placeholder_def split: option.splits)

lemma set_getScenesByStory: "set (getScenesByStory store stId) \<subseteq> set store"
  by (auto simp: getScenesByStory_def)

lemma images_loop_succeeds:
  "set (map sceneId ss) \<subseteq> set (map sceneId (run_store run)) \<Longrightarrow>
     \<exists>run'. images_loop api style ss run = Inr run'"
proof (induction ss arbitrary: run)
  case Nil
  then show ?case by simp
next
  case (Cons sc ss)
  from Cons.prems have "sceneId sc \<in> sceneId ` set (run_store run)" by simp
  then obtain x where "x \<in> set (run_store run)" "sceneId x = sceneId sc" by auto
  then have "find (\<lambda>s. sceneId s = sceneId sc) (run_store run) \<noteq> None"
    by (auto simp: find_None_iff)
  then obtain obj where f: "find_scene (run_store run) (sceneId sc) = Some obj"
    by (auto simp: find_scene_def)
  define url where
    "url = generateImage api (length (updatedScenes run)) (Some []) (Some style) (Some obj) (run_previous run)"
  define store' where "store' = update_found (sceneId sc) (\<lambda>s. s\<lparr>imageUrl := url\<rparr>) (run_store run)"
  have u: "updateSceneImage api (length (updatedScenes run)) (run_store run) (sceneId sc) style
             (run_previous run) = Inr (store', obj\<lparr>imageUrl := url\<rparr>)"
    using f by (simp add: updateSceneImage_def Let_def url_def store'_def)
  have ids: "map sceneId store' = map sceneId (run_store run)"
    unfolding store'_def update_found_def by (rule update_first_map) simp
  define run1 where "run1 =
       \<lparr> run_store = store',
         run_previous = (if imageUrl (obj\<lparr>imageUrl := url\<rparr>) \<noteq> []
                            \<and> imageUrl (obj\<lparr>imageUrl := url\<rparr>) \<noteq> placeholder
                         then run_previous run @ [imageUrl (obj\<lparr>imageUrl := url\<rparr>)]
                         else run_previous run),
         updatedScenes = updatedScenes run @ [obj\<lparr>imageUrl := url\<rparr>],
         calls = calls run @ [(sceneId sc, run_previous run)] \<rparr>"
  have step: "images_loop api style (sc # ss) run = images_loop api style ss run1"
    using u by (simp add: run1_def)
  from Cons.prems ids have "set (map sceneId ss) \<subseteq> set (map sceneId (run_store run1))"
    by (simp add: run1_def)
  from Cons.IH [OF this] step show ?case by simp
qed

lemma generateImagesForStory_succeeds:
  "\<exists>run. generateImagesForStory api store stId style = Inr run"
  unfolding generateImagesForStory_def
  by (rule images_loop_succeeds) (use set_getScenesByStory in auto)

lemma filter_below_nth:
  "sorted_wrt (<) (map f xs) \<Longrightarrow> k < length xs \<Longrightarrow>
     filter (\<lambda>x. (f x :: nat) < f (xs ! k)) xs = take k xs"
proof (induction xs arbitrary: k)
  case Nil
  then show ?case by simp
next
  case (Cons a as)
  from Cons.prems(1) have above: "\<forall>x \<in> set as. f a < f x" and rest: "sorted_wrt (<) (map f as)"
    by simp_all
  show ?case
  proof (cases k)
    case 0
    from above have "filter (\<lambda>x. f x < f a) as = []" by (auto simp: filter_empty_conv)
    with 0 show ?thesis by simp
  next
    case (Suc j)
    with Cons.prems(2) have j: "j < length as" by simp
    then have "as ! j \<in> set as" by simp
    with above have "f a < f (as ! j)" by blast
    moreover from Cons.IH [OF rest j] have "filter (\<lambda>x. f x < f (as ! j)) as = take j as" .
    ultimately show ?thesis using Suc by simp
  qed
qed

lemma put_urls_Cons:
  "put_urls (sc # ss) (url # us) s =
     (if sceneId s = sceneId sc then s\<lparr>imageUrl := url\<rparr> else put_urls ss us s)"
  by (simp add: put_urls_def)

lemma put_urls_other:
  assumes "sceneId s \<notin> set (map sceneId ss)"
  shows "put_urls ss us s = s"
proof -
  have "set (map fst (zip (map sceneId ss) us)) \<subseteq> set (map sceneId ss)"
    by (auto dest: set_zip_leftD)
  with assms have "sceneId s \<notin> fst ` set (zip (map sceneId ss) us)" by auto
  then have "map_of (zip (map sceneId ss) us) (sceneId s) = None"
    by (simp add: map_of_eq_None_iff)
  then show ?thesis by (simp add: put_urls_def)
qed

lemma put_urls_keeps:
  "sceneId (put_urls ss us s) = sceneId s" "storyId (put_urls ss us s) = storyId s"
  "order (put_urls ss us s) = order s"
  by (simp_all add: put_urls_def split: option.splits)

lemma images_loop_run:
  assumes "distinct (map sceneId (run_store run))"
    and "set ss \<subseteq> set (run_store run)"
    and "distinct (map sceneId ss)"
  shows "\<exists>run' us.
           images_loop api style ss run = Inr run'
         \<and> length us = length ss
         \<and> (\<forall>k < length ss.
               us ! k = generateImage api (length (updatedScenes run) + k) (Some []) (Some style)
                          (Some (ss ! k))
                          (run_previous run @ filter (\<lambda>u. u \<noteq> placeholder) (take k us)))
         \<and> updatedScenes run' = updatedScenes run @ map2 (\<lambda>s u. s\<lparr>imageUrl := u\<rparr>) ss us
         \<and> calls run' = calls run
             @ map (\<lambda>k. (sceneId (ss ! k),
                          run_previous run @ filter (\<lambda>u. u \<noteq> placeholder) (take k us)))
                 [0 ..< length ss]
         \<and> run_previous run' = run_previous run @ filter (\<lambda>u. u \<noteq> placeholder) us
         \<and> run_store run' = map (put_urls ss us) (run_store run)"
  using assms
proof (induction ss arbitrary: run)
  case Nil
  have "map (put_urls [] []) (run_store run) = run_store run"
    by (simp add: put_urls_def map_idI)
  then show ?case by simp
next
  case (Cons sc ss)
  from Cons.prems have mem: "sc \<in> set (run_store run)" by simp
  from find_distinct_member [OF Cons.prems(1) mem]
  have f: "find_scene (run_store run) (sceneId sc) = Some sc" by (simp add: find_scene_def)
  define url where
    "url = generateImage api (length (updatedScenes run)) (Some []) (Some style) (Some sc)
             (run_previous run)"
  define store' where
    "store' = update_found (sceneId sc) (\<lambda>s. s\<lparr>imageUrl := url\<rparr>) (run_store run)"
  have url: "url \<noteq> []" unfolding url_def by (rule generateImage_nonempty)
  have u: "updateSceneImage api (length (updatedScenes run)) (run_store run) (sceneId sc) style
             (run_previous run) = Inr (store', sc\<lparr>imageUrl := url\<rparr>)"
    using f by (simp add: updateSceneImage_def Let_def url_def store'_def)
  define run1 where "run1 =
       \<lparr> run_store = store',
         run_previous = run_previous run @ filter (\<lambda>u. u \<noteq> placeholder) [url],
         updatedScenes = updatedScenes run @ [sc\<lparr>imageUrl := url\<rparr>],
         calls = calls run @ [(sceneId sc, run_previous run)] \<rparr>"
  have step: "images_loop api style (sc # ss) run = images_loop api style ss run1"
    using u url by (simp add: run1_def)
  have ids: "map sceneId store' = map sceneId (run_store run)"
    unfolding store'_def update_found_def by (rule update_first_map) simp
  have d1: "distinct (map sceneId (run_store run1))"
    using Cons.prems(1) ids by (simp add: run1_def)
  have sub: "set ss \<subseteq> set (run_store run1)"
  proof
    fix r assume r: "r \<in> set ss"
    with Cons.prems(2) have "r \<in> set (run_store run)" by auto
    moreover have "sceneId r \<noteq> sceneId sc"
    proof
      assume "sceneId r = sceneId sc"
      with r have "sceneId sc \<in> sceneId ` set ss" by (metis imageI)
      with Cons.prems(3) show False by simp
    qed
    ultimately have "r \<in> set (update_first (\<lambda>s. sceneId s = sceneId sc)
                                 (\<lambda>s. s\<lparr>imageUrl := url\<rparr>) (run_store run))"
      by (intro update_first_keeps) simp_all
    then show "r \<in> set (run_store run1)" by (simp add: run1_def store'_def update_found_def)
  qed
  from Cons.prems(3) have d2: "distinct (map sceneId ss)" by simp
  from Cons.IH [OF d1 sub d2] obtain run' us where
    r: "images_loop api style ss run1 = Inr run'"
    and len: "length us = length ss"
    and gen: "\<forall>k < length ss.
               us ! k = generateImage api (length (updatedScenes run1) + k) (Some []) (Some style)
                          (Some (ss ! k))
                          (run_previous run1 @ filter (\<lambda>u. u \<noteq> placeholder) (take k us))"
    and upd: "updatedScenes run' = updatedScenes run1 @ map2 (\<lambda>s u. s\<lparr>imageUrl := u\<rparr>) ss us"
    and cl: "calls run' = calls run1
             @ map (\<lambda>k. (sceneId (ss ! k),
                          run_previous run1 @ filter (\<lambda>u. u \<noteq> placeholder) (take k us)))
                 [0 ..< length ss]"
    and pv: "run_previous run' = run_previous run1 @ filter (\<lambda>u. u \<noteq> placeholder) us"
    and st: "run_store run' = map (put_urls ss us) (run_store run1)"
    by blast
  have 1: "images_loop api style (sc # ss) run = Inr run'" using step r by simp
  have 2: "length (url # us) = length (sc # ss)" using len by simp
  have 3: "updatedScenes run' = updatedScenes run
             @ map2 (\<lambda>s u. s\<lparr>imageUrl := u\<rparr>) (sc # ss) (url # us)"
    using upd by (simp add: run1_def)
  have 4: "calls run' = calls run
             @ map (\<lambda>k. (sceneId ((sc # ss) ! k),
                          run_previous run @ filter (\<lambda>u. u \<noteq> placeholder) (take k (url # us))))
                 [0 ..< length (sc # ss)]"
    using cl by (simp add: run1_def map_upt_Suc del: upt_Suc)
  have 5: "run_previous run' = run_previous run @ filter (\<lambda>u. u \<noteq> placeholder) (url # us)"
    using pv by (simp add: run1_def)
  have store'_map: "store' = map (\<lambda>y. if sceneId y = sceneId sc then y\<lparr>imageUrl := url\<rparr> else y)
                              (run_store run)"
    unfolding store'_def update_found_def using Cons.prems(1) by (rule update_first_distinct)
  have pointwise: "put_urls ss us (if sceneId y = sceneId sc then y\<lparr>imageUrl := url\<rparr> else y)
                     = put_urls (sc # ss) (url # us) y" for y
  proof (cases "sceneId y = sceneId sc")
    case True
    from Cons.prems(3) have "sceneId sc \<notin> set (map sceneId ss)" by simp
    with True have "sceneId (y\<lparr>imageUrl := url\<rparr>) \<notin> set (map sceneId ss)" by simp
    then have "put_urls ss us (y\<lparr>imageUrl := url\<rparr>) = y\<lparr>imageUrl := url\<rparr>"
      by (rule put_urls_other)
    with True show ?thesis by (simp add: put_urls_Cons)
  next
    case False
    then show ?thesis by (simp add: put_urls_Cons)
  qed
  have 6: "run_store run' = map (put_urls (sc # ss) (url # us)) (run_store run)"
    using st by (simp add: run1_def store'_map pointwise comp_def)
  have 7: "(url # us) ! k
             = generateImage api (length (updatedScenes run) + k) (Some []) (Some style)
                 (Some ((sc # ss) ! k))
                 (run_previous run @ filter (\<lambda>u. u \<noteq> placeholder) (take k (url # us)))"
    if k: "k < length (sc # ss)" for k
  proof (cases k)
    case 0
    then show ?thesis by (simp add: url_def)
  next
    case (Suc j)
    with k have "j < length ss" by simp
    with gen have "us ! j = generateImage api (length (updatedScenes run1) + j) (Some [])
                          (Some style) (Some (ss ! j))
                          (run_previous run1 @ filter (\<lambda>u. u \<noteq> placeholder) (take j us))"
      by blast
    then show ?thesis by (simp add: Suc run1_def)
  qed
  from 1 2 3 4 5 6 7 show ?case by blast
qed

lemma distinct_ids_getScenesByStory:
  assumes "distinct (map sceneId store)"
  shows "distinct (map sceneId (getScenesByStory store stId))"
proof -
  from assms have d: "distinct store" and inj: "inj_on sceneId (set store)"
    by (simp_all add: distinct_map)
  have "set (getScenesByStory store stId) \<subseteq> set store" by (rule set_getScenesByStory)
  with inj have "inj_on sceneId (set (getScenesByStory store stId))" by (rule inj_on_subset)
  moreover from d have "distinct (getScenesByStory store stId)"
    by (simp add: getScenesByStory_def)
  ultimately show ?thesis by (simp add: distinct_map)
qed

lemma sorted_getScenesByStory: "sorted (map order (getScenesByStory store stId))"
  by (simp add: getScenesByStory_def)

lemma insort_key_map_same:
  assumes "\<And>x. f (h x) = f x"
  shows "insort_key f (h a) (map h xs) = map h (insort_key f a xs)"
  by (induction xs) (simp_all add: assms)

lemma sort_key_map_same:
  assumes "\<And>x. f (h x) = f x"
  shows "sort_key f (map h xs) = map h (sort_key f xs)"
proof (induction xs)
  case Nil
  show ?case by simp
next
  case (Cons a xs)
  have "insort_key f (h a) (map h (sort_key f xs)) = map h (insort_key f a (sort_key f xs))"
    using assms by (rule insort_key_map_same)
  with Cons show ?case by simp
qed

lemma getScenesByStory_put_urls:
  "getScenesByStory (map (put_urls ss us) store) stId
     = map (put_urls ss us) (getScenesByStory store stId)"
proof -
  have "filter (\<lambda>s. storyId s = stId) (map (put_urls ss us) store)
          = map (put_urls ss us) (filter (\<lambda>s. storyId s = stId) store)"
    by (simp add: filter_map comp_def put_urls_keeps)
  then show ?thesis
    by (simp add: getScenesByStory_def sort_key_map_same put_urls_keeps)
qed

lemma put_urls_own:
  assumes "distinct (map sceneId ss)" "length us = length ss"
  shows "map (put_urls ss us) ss = map2 (\<lambda>s u. s\<lparr>imageUrl := u\<rparr>) ss us"
proof (rule nth_equalityI)
  show "length (map (put_urls ss us) ss) = length (map2 (\<lambda>s u. s\<lparr>imageUrl := u\<rparr>) ss us)"
    using assms by simp
next
  fix k assume "k < length (map (put_urls ss us) ss)"
  then have k: "k < length ss" by simp
  with assms have "map_of (zip (map sceneId ss) us) (map sceneId ss ! k) = Some (us ! k)"
    by (intro map_of_zip_nth) simp_all
  with k have "put_urls ss us (ss ! k) = (ss ! k)\<lparr>imageUrl := us ! k\<rparr>"
    by (simp add: put_urls_def)
  with k assms show "map (put_urls ss us) ss ! k = map2 (\<lambda>s u. s\<lparr>imageUrl := u\<rparr>) ss us ! k"
    by simp
qed

lemma map2_imageUrl:
  "length us = length ss \<Longrightarrow>
     map imageUrl (map2 (\<lambda>s u. s\<lparr>imageUrl := u\<rparr>) ss us) = us
   \<and> map order (map2 (\<lambda>s u. s\<lparr>imageUrl := u\<rparr>) ss us) = map order ss
   \<and> map sceneId (map2 (\<lambda>s u. s\<lparr>imageUrl := u\<rparr>) ss us) = map sceneId ss"
  by (induction ss us rule: list_induct2') simp_all

lemma generateImagesForStory_run:
  assumes ids: "distinct (map sceneId store)"
  shows "\<exists>run us.
           generateImagesForStory api store stId style = Inr run
         \<and> length us = length (getScenesByStory store stId)
         \<and> (\<forall>k < length (getScenesByStory store stId).
               us ! k = generateImage api k (Some []) (Some style)
                          (Some (getScenesByStory store stId ! k))
                          (filter (\<lambda>u. u \<noteq> placeholder) (take k us)))
         \<and> updatedScenes run
             = map2 (\<lambda>s u. s\<lparr>imageUrl := u\<rparr>) (getScenesByStory store stId) us
         \<and> calls run
             = map (\<lambda>k. (sceneId (getScenesByStory store stId ! k),
                          filter (\<lambda>u. u \<noteq> placeholder) (take k us)))
                 [0 ..< length (getScenesByStory store stId)]
         \<and> run_store run = map (put_urls (getScenesByStory store stId) us) store"
proof -
  define ss where "ss = getScenesByStory store stId"
  define run0 where
    "run0 = \<lparr> run_store = store, run_previous = [], updatedScenes = [], calls = [] \<rparr>"
  have a1: "distinct (map sceneId (run_store run0))" using ids by (simp add: run0_def)
  have a2: "set ss \<subseteq> set (run_store run0)"
    using set_getScenesByStory [of store stId] by (simp add: run0_def ss_def)
  have a3: "distinct (map sceneId ss)"
    unfolding ss_def using ids by (rule distinct_ids_getScenesByStory)
  from images_loop_run [OF a1 a2 a3, of api style] obtain run us where
    "images_loop api style ss run0 = Inr run"
    "length us = length ss"
    "\<forall>k < length ss.
        us ! k = generateImage api (length (updatedScenes run0) + k) (Some []) (Some style)
                   (Some (ss ! k))
                   (run_previous run0 @ filter (\<lambda>u. u \<noteq> placeholder) (take k us))"
    "updatedScenes run = updatedScenes run0 @ map2 (\<lambda>s u. s\<lparr>imageUrl := u\<rparr>) ss us"
    "calls run = calls run0
       @ map (\<lambda>k. (sceneId (ss ! k),
                    run_previous run0 @ filter (\<lambda>u. u \<noteq> placeholder) (take k us)))
           [0 ..< length ss]"
    "run_store run = map (put_urls ss us) (run_store run0)"
    by blast
  then have "generateImagesForStory api store stId style = Inr run
         \<and> length us = length ss
         \<and> (\<forall>k < length ss.
               us ! k = generateImage api k (Some []) (Some style) (Some (ss ! k))
                          (filter (\<lambda>u. u \<noteq> placeholder) (take k us)))
         \<and> updatedScenes run = map2 (\<lambda>s u. s\<lparr>imageUrl := u\<rparr>) ss us
         \<and> calls run = map (\<lambda>k. (sceneId (ss ! k), filter (\<lambda>u. u \<noteq> placeholder) (take k us)))
                          [0 ..< length ss]
         \<and> run_store run = map (put_urls ss us) store"
    by (simp add: generateImagesForStory_def ss_def run0_def)
  then show ?thesis unfolding ss_def by blast
qed

text \<open>
  \<open>generateImagesForStory\<close> on a scene array with distinct ids. It returns, it calls
  \<open>updateSceneImage\<close> once for each scene of the story, in ascending order (scenes of
  equal order in the order of the array), and afterwards the scenes of the story are the
  updated scenes. The list \<open>previousImages\<close> passed for a scene holds the image URLs,
  other than the placeholder, of the scenes processed before it; the placeholder is
  never in it. When the orders of the scenes of the story are distinct, the scenes are
  processed in strictly ascending order and that list holds exactly the image URLs of
  the scenes of lower order whose URL is not the placeholder.
\<close>

lemma image_generation_in_order:
  assumes ids: "distinct (map sceneId store)"
  shows "\<exists>run. generateImagesForStory api store stId style = Inr run
     \<and> map fst (calls run) = map sceneId (getScenesByStory store stId)
     \<and> map sceneId (updatedScenes run) = map sceneId (getScenesByStory store stId)
     \<and> map order (updatedScenes run) = map order (getScenesByStory store stId)
     \<and> sorted (map order (updatedScenes run))
     \<and> getScenesByStory (run_store run) stId = updatedScenes run
     \<and> length (calls run) = length (updatedScenes run)
     \<and> (\<forall>k < length (calls run).
           snd (calls run ! k)
             = filter (\<lambda>u. u \<noteq> placeholder) (map imageUrl (take k (updatedScenes run)))
         \<and> placeholder \<notin> set (snd (calls run ! k)))
     \<and> (distinct (map order (getScenesByStory store stId)) \<longrightarrow>
           sorted_wrt (<) (map order (updatedScenes run))
         \<and> (\<forall>k < length (calls run).
               snd (calls run ! k)
                 = map imageUrl
                     (filter (\<lambda>s. order s < order (updatedScenes run ! k)
                                  \<and> imageUrl s \<noteq> placeholder)
                             (updatedScenes run))))"
proof -
  define ss where "ss = getScenesByStory store stId"
  have a3: "distinct (map sceneId ss)"
    unfolding ss_def using ids by (rule distinct_ids_getScenesByStory)
  from generateImagesForStory_run [OF ids, of api stId style] obtain run us where
    1: "generateImagesForStory api store stId style = Inr run"
    and len: "length us = length ss"
    and upd: "updatedScenes run = map2 (\<lambda>s u. s\<lparr>imageUrl := u\<rparr>) ss us"
    and cl: "calls run = map (\<lambda>k. (sceneId (ss ! k), filter (\<lambda>u. u \<noteq> placeholder) (take k us)))
                             [0 ..< length ss]"
    and st: "run_store run = map (put_urls ss us) store"
    unfolding ss_def by blast
  have 5: "getScenesByStory (run_store run) stId = updatedScenes run"
    unfolding st getScenesByStory_put_urls upd ss_def [symmetric]
    using a3 len by (rule put_urls_own)
  define U where "U = updatedScenes run"
  from map2_imageUrl [OF len] upd have
    urls: "map imageUrl U = us" and ords: "map order U = map order ss"
    and sids: "map sceneId U = map sceneId ss"
    by (simp_all add: U_def)
  have lenU: "length U = length ss" using upd len by (simp add: U_def)
  have srt: "sorted (map order U)"
    unfolding ords ss_def by (rule sorted_getScenesByStory)
  have 2: "map fst (calls run) = map sceneId ss"
    unfolding cl by (rule nth_equalityI) simp_all
  have 3: "length (calls run) = length U" using cl lenU by simp
  have c: "snd (calls run ! k) = filter (\<lambda>u. u \<noteq> placeholder) (map imageUrl (take k U))"
    if k: "k < length (calls run)" for k
  proof -
    from k 3 lenU have "k < length ss" by simp
    then have "snd (calls run ! k) = filter (\<lambda>u. u \<noteq> placeholder) (take k us)"
      unfolding cl by simp
    then show ?thesis using urls by (simp add: take_map [symmetric])
  qed
  have 4: "snd (calls run ! k) = filter (\<lambda>u. u \<noteq> placeholder) (map imageUrl (take k U))
         \<and> placeholder \<notin> set (snd (calls run ! k))" if k: "k < length (calls run)" for k
    using c [OF k] by simp
  have 6: "sorted_wrt (<) (map order U)
         \<and> (\<forall>k < length (calls run).
               snd (calls run ! k)
                 = map imageUrl
                     (filter (\<lambda>s. order s < order (U ! k) \<and> imageUrl s \<noteq> placeholder) U))"
    if orders: "distinct (map order (getScenesByStory store stId))"
  proof -
    have strict: "sorted_wrt (<) (map order U)"
      unfolding ords ss_def using sorted_getScenesByStory orders by (simp add: strict_sorted_iff)
    have "snd (calls run ! k)
                 = map imageUrl
                     (filter (\<lambda>s. order s < order (U ! k) \<and> imageUrl s \<noteq> placeholder) U)"
      if k: "k < length (calls run)" for k
    proof -
      from k 3 have kU: "k < length U" by simp
      have "filter (\<lambda>s. order s < order (U ! k) \<and> imageUrl s \<noteq> placeholder) U
              = filter (\<lambda>s. imageUrl s \<noteq> placeholder) (filter (\<lambda>s. order s < order (U ! k)) U)"
        by (simp add: conj_commute)
      also have "\<dots> = filter (\<lambda>s. imageUrl s \<noteq> placeholder) (take k U)"
        using filter_below_nth [OF strict kU] by simp
      finally have "map imageUrl
                      (filter (\<lambda>s. order s < order (U ! k) \<and> imageUrl s \<noteq> placeholder) U)
              = filter (\<lambda>u. u \<noteq> placeholder) (map imageUrl (take k U))"
        by (simp add: filter_map comp_def)
      with c [OF k] show ?thesis by simp
    qed
    with strict show ?thesis by blast
  qed
  from 1 2 3 4 5 6 sids ords srt show ?thesis unfolding U_def ss_def by blast
qed

section \<open>Generating the scenes of a story\<close>

lemma create_scenes_result:
  "create_scenes uuids stId i ds store = (store', objs) \<Longrightarrow>
     length objs = length ds \<and> store' = store @ objs"
proof (induction ds arbitrary: i store store' objs)
  case Nil
  then show ?case by simp
next
  case (Cons d ds)
  obtain s1 sc where c: "createScene store (uuids i) stId i d = (s1, sc)"
    by (cases "createScene store (uuids i) stId i d")
  obtain s2 os where r: "create_scenes uuids stId (Suc i) ds s1 = (s2, os)"
    by (cases "create_scenes uuids stId (Suc i) ds s1")
  from c have s1: "s1 = store @ [sc]" by (auto simp: createScene_def Let_def)
  from Cons.IH [OF r] have "length os = length ds" "s2 = s1 @ os" by simp_all
  moreover from Cons.prems c r have "store' = s2" "objs = sc # os" by simp_all
  ultimately show ?case using s1 by simp
qed

lemma generateStoryScenes_result:
  assumes found: "find (\<lambda>s. story_id s = stId) (stories st) = Some story"
    and content: "extractContent response = Inr content"
    and range: "0 \<le> numScenes"
  shows "\<exists>st' refs story'.
            generateStoryScenes response uuids api st stId numScenes = Inr (st', refs)
          \<and> int (length refs) = numScenes
          \<and> find (\<lambda>s. story_id s = stId) (stories st') = Some story'
          \<and> story_scenes story' = refs"
proof -
  define adjusted where
    "adjusted = adjustScenes (scenes_of_content content (proposal story) numScenes) numScenes"
  obtain store' objs where cr: "create_scenes uuids stId 0 adjusted (scenes st) = (store', objs)"
    by (cases "create_scenes uuids stId 0 adjusted (scenes st)")
  define refs where "refs = map sceneId objs"
  define stories' where
    "stories' = update_first (\<lambda>s. story_id s = stId) (\<lambda>s. s\<lparr>story_scenes := refs\<rparr>) (stories st)"
  have len_adj: "int (length adjusted) = numScenes"
    unfolding adjusted_def using range by (rule length_adjustScenes)
  from create_scenes_result [OF cr] have "length objs = length adjusted" by simp
  with len_adj have len: "int (length refs) = numScenes" by (simp add: refs_def)
  have gen: "generateScenes response (proposal story) numScenes
               = Inr (scenes_of_content content (proposal story) numScenes)"
    by (simp add: generateScenes_def content)
  have fnd: "find (\<lambda>s. story_id s = stId) stories' = Some (story\<lparr>story_scenes := refs\<rparr>)"
    unfolding stories'_def by (subst find_update_first) (simp_all add: found)
  show ?thesis
  proof (cases "story_style story \<noteq> []")
    case True
    obtain run where run: "generateImagesForStory api store' stId (story_style story) = Inr run"
      using generateImagesForStory_succeeds by blast
    have "generateStoryScenes response uuids api st stId numScenes
            = Inr (\<lparr> stories = stories', scenes = run_store run \<rparr>, refs)"
      using True run cr
      by (simp add: generateStoryScenes_def found gen Let_def adjusted_def [symmetric]
                    refs_def [symmetric] stories'_def [symmetric])
    with len fnd show ?thesis by simp
  next
    case False
    have "generateStoryScenes response uuids api st stId numScenes
            = Inr (\<lparr> stories = stories', scenes = store' \<rparr>, refs)"
      using False cr
      by (simp add: generateStoryScenes_def found gen Let_def adjusted_def [symmetric]
                    refs_def [symmetric] stories'_def [symmetric])
    with len fnd show ?thesis by simp
  qed
qed

text \<open>
  For every reply text and every requested count from 3 to 15, the list that
  \<open>generateScenes\<close> builds from the text has exactly that many drafts, and so has the
  list after the adjustment of \<open>generateStoryScenes\<close>.
\<close>

lemma reconciled_scene_count:
  assumes "3 \<le> numScenes" and "numScenes \<le> 15"
  shows "int (length (scenes_of_content content storyProposal numScenes)) = numScenes
       \<and> int (length (adjustScenes (scenes_of_content content storyProposal numScenes) numScenes))
           = numScenes"
proof -
  from assms have "numScenes = min (max numScenes 3) 15" by simp
  then have "int (length (scenes_of_content content storyProposal numScenes)) = numScenes"
    by (rule length_scenes_of_content)
  moreover from assms have "0 \<le> numScenes" by simp
  then have "int (length (adjustScenes (scenes_of_content content storyProposal numScenes) numScenes))
           = numScenes"
    by (rule length_adjustScenes)
  ultimately show ?thesis by simp
qed

text \<open>
  The scenes created for a story that had none are the scenes of that story afterwards,
  with the orders 0, 1, 2, ... and new ids. So after the first generation of a story the
  ids of the store are distinct and the orders within the story are distinct, which is
  what the data model asks for.
\<close>

lemma create_scenes_objs:
  "create_scenes uuids stId i ds store = (store', objs) \<Longrightarrow>
     map sceneId objs = map uuids [i ..< i + length ds]
   \<and> map order objs = [i ..< i + length ds]
   \<and> (\<forall>s \<in> set objs. storyId s = stId)"
proof (induction ds arbitrary: i store store' objs)
  case Nil
  then show ?case by simp
next
  case (Cons d ds)
  obtain s1 sc where c: "createScene store (uuids i) stId i d = (s1, sc)"
    by (cases "createScene store (uuids i) stId i d")
  obtain s2 os where r: "create_scenes uuids stId (Suc i) ds s1 = (s2, os)"
    by (cases "create_scenes uuids stId (Suc i) ds s1")
  from c have sc: "sceneId sc = uuids i" "order sc = i" "storyId sc = stId"
    by (auto simp: createScene_def Let_def)
  from Cons.prems c r have objs: "objs = sc # os" by simp
  from Cons.IH [OF r] have
    "map sceneId os = map uuids [Suc i ..< Suc i + length ds]"
    "map order os = [Suc i ..< Suc i + length ds]"
    "\<forall>s \<in> set os. storyId s = stId"
    by simp_all
  moreover have "[i ..< i + length (d # ds)] = i # [Suc i ..< Suc i + length ds]"
    using upt_conv_Cons [of i "i + length (d # ds)"] by simp
  ultimately show ?case using sc objs by (simp del: upt_Suc length_Cons add_Suc_right add_Suc)
qed

lemma first_generation_invariants:
  assumes ids: "distinct (map sceneId store)"
    and fresh: "inj uuids" "\<forall>i. uuids i \<notin> set (map sceneId store)"
    and none: "\<forall>s \<in> set store. storyId s \<noteq> stId"
    and cr: "create_scenes uuids stId 0 ds store = (store', objs)"
  shows "distinct (map sceneId store')
       \<and> getScenesByStory store' stId = objs
       \<and> map order (getScenesByStory store' stId) = [0 ..< length ds]"
proof -
  from create_scenes_result [OF cr] have st: "store' = store @ objs" and len: "length objs = length ds"
    by simp_all
  from create_scenes_objs [OF cr] have
    sid: "map sceneId objs = map uuids [0 ..< length ds]"
    and ord: "map order objs = [0 ..< length ds]"
    and sty: "\<forall>s \<in> set objs. storyId s = stId"
    by simp_all
  from fresh(1) have "distinct (map uuids [0 ..< length ds])"
    by (simp add: distinct_map inj_on_def inj_def)
  with sid have d2: "distinct (map sceneId objs)" by simp
  have disj: "set (map sceneId store) \<inter> set (map sceneId objs) = {}"
  proof (rule ccontr)
    assume "set (map sceneId store) \<inter> set (map sceneId objs) \<noteq> {}"
    then obtain x where x: "x \<in> set (map sceneId store)" "x \<in> set (map sceneId objs)"
      by blast
    from x(2) obtain j where "x = uuids j" unfolding sid by auto
    with x(1) fresh(2) show False by blast
  qed
  from ids d2 disj have 1: "distinct (map sceneId store')" unfolding st by simp
  from none have f1: "filter (\<lambda>s. storyId s = stId) store = []" by (simp add: filter_empty_conv)
  from sty have f2: "filter (\<lambda>s. storyId s = stId) objs = objs" by (simp add: filter_id_conv)
  have "sorted (map order objs)" unfolding ord by simp
  then have "sort_key order objs = objs" by (rule sort_key_id_if_sorted)
  with f1 f2 have 2: "getScenesByStory store' stId = objs"
    by (simp add: getScenesByStory_def st)
  from 1 2 ord show ?thesis by simp
qed

text \<open>
  \<open>generateStoryScenes\<close> returns as many scenes as were requested and adds exactly these
  to the scenes that the story has in the array; the scenes that the story had before
  stay. \<open>getStory\<close> yields the scenes that the story has in the array.
\<close>

lemma updateSceneImage_keeps:
  "updateSceneImage api k store sid style prev = Inr (store', upd) \<Longrightarrow>
     map sceneId store' = map sceneId store \<and> map storyId store' = map storyId store
   \<and> map order store' = map order store"
  by (auto simp: updateSceneImage_def update_found_def Let_def update_first_map
           split: option.splits)

lemma images_loop_keeps:
  "images_loop api style ss run = Inr run' \<Longrightarrow>
     map sceneId (run_store run') = map sceneId (run_store run)
   \<and> map storyId (run_store run') = map storyId (run_store run)
   \<and> map order (run_store run') = map order (run_store run)"
proof (induction ss arbitrary: run)
  case Nil
  then show ?case by simp
next
  case (Cons sc ss)
  show ?case
  proof (cases "updateSceneImage api (length (updatedScenes run)) (run_store run) (sceneId sc) style
                  (run_previous run)")
    case (Inl e)
    with Cons.prems show ?thesis by simp
  next
    case (Inr p)
    obtain store' upd where p: "p = (store', upd)" by (cases p)
    define run1 where "run1 =
         \<lparr> run_store = store',
           run_previous =
             (if imageUrl upd \<noteq> [] \<and> imageUrl upd \<noteq> placeholder
              then run_previous run @ [imageUrl upd] else run_previous run),
           updatedScenes = updatedScenes run @ [upd],
           calls = calls run @ [(sceneId sc, run_previous run)] \<rparr>"
    from Cons.prems Inr p have "images_loop api style ss run1 = Inr run'"
      by (simp add: run1_def)
    from Cons.IH [OF this] have
      "map sceneId (run_store run') = map sceneId store'"
      "map storyId (run_store run') = map storyId store'"
      "map order (run_store run') = map order store'"
      by (simp_all add: run1_def)
    moreover from Inr p have
      "map sceneId store' = map sceneId (run_store run)
       \<and> map storyId store' = map storyId (run_store run)
       \<and> map order store' = map order (run_store run)"
      by (intro updateSceneImage_keeps) simp
    ultimately show ?thesis by simp
  qed
qed

lemma length_getScenesByStory:
  "length (getScenesByStory store stId) = length (filter (\<lambda>x. x = stId) (map storyId store))"
  by (simp add: getScenesByStory_def filter_map comp_def)

lemma generateStoryScenes_adds_scenes:
  assumes found: "find (\<lambda>s. story_id s = stId) (stories st) = Some story"
    and content: "extractContent response = Inr content"
    and range: "0 \<le> numScenes"
    and res: "generateStoryScenes response uuids api st stId numScenes = Inr (st', refs)"
  shows "int (length refs) = numScenes
       \<and> int (length (getScenesByStory (scenes st') stId))
           = int (length (getScenesByStory (scenes st) stId)) + numScenes"
proof -
  define adjusted where
    "adjusted = adjustScenes (scenes_of_content content (proposal story) numScenes) numScenes"
  obtain store' objs where cr: "create_scenes uuids stId 0 adjusted (scenes st) = (store', objs)"
    by (cases "create_scenes uuids stId 0 adjusted (scenes st)")
  have len_adj: "int (length adjusted) = numScenes"
    unfolding adjusted_def using range by (rule length_adjustScenes)
  from create_scenes_result [OF cr] have objs: "length objs = length adjusted"
    and st: "store' = scenes st @ objs" by simp_all
  from create_scenes_objs [OF cr] have own: "\<forall>s \<in> set objs. storyId s = stId" by simp
  then have "filter (\<lambda>x. x = stId) (map storyId objs) = map storyId objs"
    by (simp add: filter_id_conv)
  then have grow: "length (filter (\<lambda>x. x = stId) (map storyId store'))
                = length (filter (\<lambda>x. x = stId) (map storyId (scenes st))) + length adjusted"
    by (simp add: st objs)
  have gen: "generateScenes response (proposal story) numScenes
               = Inr (scenes_of_content content (proposal story) numScenes)"
    by (simp add: generateScenes_def content)
  have refs: "refs = map sceneId objs"
    using res cr
    by (auto simp: generateStoryScenes_def found gen Let_def adjusted_def [symmetric]
             split: if_splits sum.splits)
  have same: "map storyId (scenes st') = map storyId store'"
  proof (cases "story_style story \<noteq> []")
    case True
    with res cr obtain run where
      run: "generateImagesForStory api store' stId (story_style story) = Inr run"
      and st': "scenes st' = run_store run"
      by (auto simp: generateStoryScenes_def found gen Let_def adjusted_def [symmetric]
               split: sum.splits)
    from run have "map storyId (run_store run) = map storyId store'"
      unfolding generateImagesForStory_def by (auto dest: images_loop_keeps)
    with st' show ?thesis by simp
  next
    case False
    with res cr have "scenes st' = store'"
      by (auto simp: generateStoryScenes_def found gen Let_def adjusted_def [symmetric])
    then show ?thesis by simp
  qed
  from refs objs len_adj have "int (length refs) = numScenes" by simp
  moreover from grow same len_adj
  have "int (length (getScenesByStory (scenes st') stId))
           = int (length (getScenesByStory (scenes st) stId)) + numScenes"
    by (simp add: length_getScenesByStory)
  ultimately show ?thesis by simp
qed

lemma getStory_result:
  "find (\<lambda>s. story_id s = stId) (stories st) = Some story \<Longrightarrow>
     map_sum id (\<lambda>(st', story'). story_scenes story') (getStory st stId)
       = Inr (map sceneId (getScenesByStory (scenes st) stId))"
  by (simp add: getStory_def Let_def)

section \<open>Generating the scenes of a story a second time\<close>

lemma generated_twice_eq:
  "generated_twice =
     Inr (\<lparr> stories = [\<lparr> story_id = ''s1'', proposal = ''Era uma vez'', story_style = [],
                         story_scenes = [''b0'', ''b1'', ''b2'', ''b3'', ''b4''] \<rparr>],
            scenes = [made_scene ''a0'' 0, made_scene ''a1'' 1, made_scene ''a2'' 2,
                      made_scene ''b0'' 0, made_scene ''b1'' 1, made_scene ''b2'' 2,
                      made_scene ''b3'' 3, made_scene ''b4'' 4] \<rparr>,
          [''b0'', ''b1'', ''b2'', ''b3'', ''b4''])"
  by code_simp

lemma regenerated_store_eq:
  "regenerated_store =
     [made_scene ''a0'' 0, made_scene ''a1'' 1, made_scene ''a2'' 2,
      made_scene ''b0'' 0, made_scene ''b1'' 1, made_scene ''b2'' 2,
      made_scene ''b3'' 3, made_scene ''b4'' 4]"
  by (simp add: regenerated_store_def generated_twice_eq)

lemma made_scene_fields:
  "sceneId (made_scene sid i) = sid" "storyId (made_scene sid i) = ''s1''"
  "order (made_scene sid i) = i" "imageUrl (made_scene sid i) = []"
  by (simp_all add: made_scene_def Let_def)

lemma regenerated_story_scenes:
  "getScenesByStory regenerated_store ''s1'' =
     [made_scene ''a0'' 0, made_scene ''b0'' 0, made_scene ''a1'' 1, made_scene ''b1'' 1,
      made_scene ''a2'' 2, made_scene ''b2'' 2, made_scene ''b3'' 3, made_scene ''b4'' 4]"
  by (simp add: regenerated_store_eq getScenesByStory_def made_scene_fields)

lemma regenerated_ids: "distinct (map sceneId regenerated_store)"
  by (simp add: regenerated_store_eq made_scene_fields)

text \<open>
  Claim C1 fails when the scenes of a story are generated a second time.
  \<open>generateStoryScenes\<close> assigns the new scenes to \<open>story.scenes\<close>, but the scenes of the
  earlier generation stay in the scene array, and \<open>getStory\<close> rebuilds \<open>story.scenes\<close>
  from that array. For the story \<open>s1\<close>, generated with 3 scenes and then with 5, the
  second call returns 5 scenes, and the scenes list that \<open>getStory\<close> yields has 8: the 3
  earlier scenes and the 5 new ones, with the orders 0, 0, 1, 1, 2, 2, 3, 4.
\<close>

theorem regeneration_keeps_earlier_scenes:
  "map_sum id snd generated_once = Inr [''a0'', ''a1'', ''a2'']
   \<and> map_sum id snd generated_twice = Inr [''b0'', ''b1'', ''b2'', ''b3'', ''b4'']
   \<and> map_sum id (\<lambda>(st, story). story_scenes story) read_back
        = Inr [''a0'', ''b0'', ''a1'', ''b1'', ''a2'', ''b2'', ''b3'', ''b4'']
   \<and> map_sum id (\<lambda>(st, story). length (story_scenes story)) read_back = Inr 8
   \<and> map order (getScenesByStory regenerated_store ''s1'') = [0, 0, 1, 1, 2, 2, 3, 4]"
proof -
  have 1: "map_sum id snd generated_once = Inr [''a0'', ''a1'', ''a2'']" by code_simp
  have 2: "map_sum id snd generated_twice = Inr [''b0'', ''b1'', ''b2'', ''b3'', ''b4'']"
    by (simp add: generated_twice_eq)
  have rb: "read_back = getStory (fst (projr generated_twice)) ''s1''"
    by (simp add: read_back_def generated_twice_eq)
  have sc: "scenes (fst (projr generated_twice)) = regenerated_store"
    by (simp add: regenerated_store_def generated_twice_eq)
  have fnd: "find (\<lambda>s. story_id s = ''s1'') (stories (fst (projr generated_twice)))
               = Some (hd (stories (fst (projr generated_twice))))"
    by (simp add: generated_twice_eq)
  have "map_sum id (\<lambda>(st, story). story_scenes story) read_back
          = Inr (map sceneId (getScenesByStory regenerated_store ''s1''))"
    unfolding rb sc [symmetric] using fnd by (rule getStory_result)
  then have 3: "map_sum id (\<lambda>(st, story). story_scenes story) read_back
        = Inr [''a0'', ''b0'', ''a1'', ''b1'', ''a2'', ''b2'', ''b3'', ''b4'']"
    by (simp only: regenerated_story_scenes) (simp add: made_scene_fields)
  have 4: "map_sum id (\<lambda>(st, story). length (story_scenes story)) read_back = Inr 8"
  proof (cases read_back)
    case (Inl e)
    from 3 show ?thesis unfolding Inl by simp
  next
    case (Inr p)
    obtain a b where p: "p = (a, b)" by (cases p)
    from 3 show ?thesis unfolding Inr p by simp
  qed
  have 5: "map order (getScenesByStory regenerated_store ''s1'') = [0, 0, 1, 1, 2, 2, 3, 4]"
    by (simp add: regenerated_story_scenes made_scene_fields)
  from 1 2 3 4 5 show ?thesis by simp
qed

text \<open>
  Claim C7 fails on the scene array that this leaves behind. \<open>generateStoryScenes\<close> runs
  \<open>generateImagesForStory\<close> on \<open>regenerated_store\<close> in its second call when a style has been
  chosen between the two calls. The scenes are processed in the order \<open>a0\<close>, \<open>b0\<close>, \<open>a1\<close>,
  \<open>b1\<close>, ...: the orders 0, 0, 1, 1, 2, 2, 3, 4 are not strictly ascending, and the call
  for \<open>b0\<close>, a scene of order 0, is passed the image URL of \<open>a0\<close>, which is not a scene of
  lower order.
\<close>

lemma first_image_url:
  "generateImage demo_api 0 (Some []) (Some ''anime'') (Some (made_scene ''a0'' 0)) []
     = ''https://img/0''"
  by code_simp

theorem regenerated_story_image_order:
  "\<exists>run. generateImagesForStory demo_api regenerated_store ''s1'' ''anime'' = Inr run
     \<and> map fst (calls run) = [''a0'', ''b0'', ''a1'', ''b1'', ''a2'', ''b2'', ''b3'', ''b4'']
     \<and> map order (updatedScenes run) = [0, 0, 1, 1, 2, 2, 3, 4]
     \<and> \<not> sorted_wrt (<) (map order (updatedScenes run))
     \<and> calls run ! 1 = (''b0'', [''https://img/0''])
     \<and> order (updatedScenes run ! 1) = 0"
proof -
  define ss where "ss = getScenesByStory regenerated_store ''s1''"
  have ss: "ss = [made_scene ''a0'' 0, made_scene ''b0'' 0, made_scene ''a1'' 1,
                  made_scene ''b1'' 1, made_scene ''a2'' 2, made_scene ''b2'' 2,
                  made_scene ''b3'' 3, made_scene ''b4'' 4]"
    unfolding ss_def by (rule regenerated_story_scenes)
  have n: "length ss = 8" by (simp add: ss)
  from generateImagesForStory_run [OF regenerated_ids, of demo_api "''s1''" "''anime''"]
  obtain run us where
    r: "generateImagesForStory demo_api regenerated_store ''s1'' ''anime'' = Inr run"
    and len: "length us = length ss"
    and gen: "\<forall>k < length ss.
               us ! k = generateImage demo_api k (Some []) (Some ''anime'') (Some (ss ! k))
                          (filter (\<lambda>u. u \<noteq> placeholder) (take k us))"
    and upd: "updatedScenes run = map2 (\<lambda>s u. s\<lparr>imageUrl := u\<rparr>) ss us"
    and cl: "calls run = map (\<lambda>k. (sceneId (ss ! k), filter (\<lambda>u. u \<noteq> placeholder) (take k us)))
                             [0 ..< length ss]"
    unfolding ss_def by blast
  from gen n have "us ! 0 = generateImage demo_api 0 (Some []) (Some ''anime'') (Some (ss ! 0)) []"
    by simp
  then have u0: "us ! 0 = ''https://img/0''" by (simp add: ss first_image_url)
  from len n have "take 1 us = [us ! 0]" by (cases us) simp_all
  with u0 have t1: "filter (\<lambda>u. u \<noteq> placeholder) (take 1 us) = [''https://img/0'']"
    by (simp add: placeholder_def)
  have ids: "map fst (calls run) = map sceneId ss"
    unfolding cl by (rule nth_equalityI) simp_all
  then have 1: "map fst (calls run) = [''a0'', ''b0'', ''a1'', ''b1'', ''a2'', ''b2'', ''b3'', ''b4'']"
    by (simp add: ss made_scene_fields)
  from map2_imageUrl [OF len] upd have "map order (updatedScenes run) = map order ss" by simp
  then have 2: "map order (updatedScenes run) = [0, 0, 1, 1, 2, 2, 3, 4]"
    by (simp add: ss made_scene_fields)
  then have 3: "\<not> sorted_wrt (<) (map order (updatedScenes run))" by simp
  have "calls run ! 1 = (sceneId (ss ! 1), filter (\<lambda>u. u \<noteq> placeholder) (take 1 us))"
    unfolding cl using n by simp
  with t1 have 4: "calls run ! 1 = (''b0'', [''https://img/0''])"
    by (simp add: ss made_scene_fields)
  from upd len n have "length (updatedScenes run) = 8" by simp
  then have "order (updatedScenes run ! 1) = map order (updatedScenes run) ! 1" by simp
  with 2 have 5: "order (updatedScenes run ! 1) = 0" by simp
  from r 1 2 3 4 5 show ?thesis
    by - (rule exI [of _ run], (rule conjI, assumption)+, assumption)
qed

section \<open>The style translator\<close>

text \<open>
  Claim C8 fails for a term that names a property inherited from \<open>Object.prototype\<close>:
  for the style \<open>constructor\<close> the property read finds the function \<open>Object\<close>, \<open>??\<close> does
  not fall back, and the result is that function instead of the term; in a prompt it
  reads \<open>function Object() { [native code] }\<close>. The term \<open>__proto__\<close> behaves alike.
\<close>

theorem translate_inherited_property:
  "translateStyleToEnglish (Some ''constructor'') = JObjectFunction
   \<and> translateStyleToEnglish (Some ''constructor'') \<noteq> JString ''constructor''
   \<and> to_str (translateStyleToEnglish (Some ''constructor''))
        = ''function Object() { [native code] }''
   \<and> translateStyleToEnglish (Some ''__proto__'') = JObjectPrototype"
  by code_simp

text \<open>
  The other parts of the claim hold: the lookup goes by the lower-cased term, a term
  that names no property is returned as it is, the absent and the empty term give
  \<open>realistic\<close>, and translating a translated string changes nothing.
\<close>

lemma translate_examples:
  "translateStyleToEnglish (Some ''REALISTA'') = JString ''photorealistic''"
  "translateStyleToEnglish (Some ''realista'') = JString ''photorealistic''"
  "translateStyleToEnglish (Some ''xyz'') = JString ''xyz''"
  "translateStyleToEnglish (Some []) = JString ''realistic''"
  "translateStyleToEnglish None = JString ''realistic''"
  by code_simp+

lemma translate_by_lower_case:
  "s \<noteq> [] \<Longrightarrow> t \<noteq> [] \<Longrightarrow> toLowerCase s = toLowerCase t \<Longrightarrow>
     styleMap_get (toLowerCase s) \<noteq> None \<Longrightarrow>
     translateStyleToEnglish (Some s) = translateStyleToEnglish (Some t)"
  by (auto simp: translateStyleToEnglish_def)

lemma translate_unknown:
  "s \<noteq> [] \<Longrightarrow> styleMap_get (toLowerCase s) = None \<Longrightarrow>
     translateStyleToEnglish (Some s) = JString s"
  by (simp add: translateStyleToEnglish_def)

lemma translate_table_values:
  "\<forall>v \<in> set (map snd styleMap). translateStyleToEnglish (Some v) = JString v"
  by code_simp

lemma translate_default_again: "translateStyleToEnglish (Some ''realistic'') = JString ''realistic''"
  by code_simp

lemma translate_idempotent:
  assumes "translateStyleToEnglish style = JString r"
  shows "translateStyleToEnglish (Some r) = JString r"
proof (cases "style = None \<or> style = Some []")
  case True
  with assms have "r = ''realistic''" by (auto simp: translateStyleToEnglish_def)
  then show ?thesis by (simp add: translate_default_again)
next
  case False
  then obtain s where s: "style = Some s" "s \<noteq> []" by (cases style) auto
  show ?thesis
  proof (cases "map_of styleMap (toLowerCase s)")
    case (Some v)
    with assms s have "r = v" by (simp add: translateStyleToEnglish_def styleMap_get_def)
    moreover from Some have "(toLowerCase s, v) \<in> set styleMap" by (rule map_of_SomeD)
    then have "snd (toLowerCase s, v) \<in> snd ` set styleMap" by (rule imageI)
    then have "v \<in> set (map snd styleMap)" by simp
    ultimately show ?thesis using translate_table_values by blast
  next
    case None
    with assms s have "styleMap_get (toLowerCase s) = None \<and> r = s"
      by (auto simp: translateStyleToEnglish_def styleMap_get_def split: if_splits)
    with s show ?thesis by (simp add: translate_unknown)
  qed
qed

section \<open>The image prompt\<close>

lemma style_marker_head: "style_marker = CHR ''I'' # tl style_marker"
  by (simp add: style_marker_def)

lemma trim_long_prompt: "trim long_prompt = long_prompt"
proof (rule trim_unchanged)
  show "long_prompt \<noteq> []" by (simp add: long_prompt_def)
  have "hd long_prompt = CHR ''a''" by (simp add: long_prompt_def)
  then show "\<not> is_space (hd long_prompt)" by (simp add: is_space_def)
  have "last long_prompt = CHR ''a''" by (simp add: long_prompt_def)
  then show "\<not> is_space (last long_prompt)" by (simp add: is_space_def)
qed

lemma long_prompt_no_marker: "\<not> includes_str long_prompt style_marker"
proof
  assume "includes_str long_prompt style_marker"
  then have "includes_str long_prompt (CHR ''I'' # tl style_marker)"
    using style_marker_head by simp
  then have "CHR ''I'' \<in> set long_prompt" by (rule includes_str_head_mem)
  then show False by (simp add: long_prompt_def)
qed

text \<open>
  Claim C2 fails on the custom path of \<open>generateImage\<close>, which sends its prompt uncut:
  for a custom prompt of 1000 letters the prompt sent has 1043 characters.
\<close>

theorem custom_prompt_exceeds_limit:
  "finalPrompt (Some long_prompt) (Some []) None [] = Some (lead_in @ long_prompt)
   \<and> length (lead_in @ long_prompt) = 1043"
proof -
  have "long_prompt \<noteq> []" by (simp add: long_prompt_def)
  then have "finalPrompt (Some long_prompt) (Some []) None [] = Some (lead_in @ long_prompt)"
    by (simp add: finalPrompt_def Let_def long_prompt_no_marker trim_long_prompt
                  consistencyPrompt_def)
  moreover have "length (lead_in @ long_prompt) = 1043"
    by (simp add: lead_in_def long_prompt_def)
  ultimately show ?thesis by simp
qed

text \<open>The two scene paths do cut their prompt, as the claim says.\<close>

lemma length_limit_prompt: "length (limit_prompt p) \<le> 1000"
  by (simp add: limit_prompt_def)

lemma scene_prompt_limited:
  assumes "prompt = None \<or> prompt = Some []"
    and "finalPrompt prompt style sc previousImages = Some q"
  shows "length q \<le> 1000"
  using assms
  by (auto simp: finalPrompt_def Let_def length_limit_prompt split: option.splits if_splits)

lemma includes_str_limit: "includes_str (limit_prompt xs) p \<Longrightarrow> includes_str xs p"
proof (cases "length xs > 1000")
  case True
  assume "includes_str (limit_prompt xs) p"
  with True have "includes_str (take 1000 xs) p" by (simp add: limit_prompt_def)
  then show ?thesis by (rule includes_str_take)
next
  case False
  assume "includes_str (limit_prompt xs) p"
  with False show ?thesis by (simp add: limit_prompt_def)
qed

lemma show_nat_no_M: "CHR ''M'' \<notin> set (show_nat n)"
  using set_show_nat [of n] by auto

lemma consistency_instruction_head:
  "consistency_instruction = CHR ''M'' # tl consistency_instruction"
  by (simp add: consistency_instruction_def)

lemma lead_in_no_M: "CHR ''M'' \<notin> set lead_in"
  by (simp add: lead_in_def)

lemma sequence_note_no_M: "CHR ''M'' \<notin> set (sequence_note ord)"
  by (simp add: sequence_note_def show_nat_no_M)

lemma keep_identical_no_instruction: "\<not> includes_str keep_identical consistency_instruction"
  by code_simp

lemma keep_same_no_instruction: "\<not> includes_str keep_same consistency_instruction"
  by code_simp

lemma table_values_no_M: "\<forall>v \<in> set (map snd styleMap). CHR ''M'' \<notin> set v"
  by code_simp

lemma with_style_split: "with_style style p = with_style style [] @ p"
  by (simp add: with_style_def split: option.splits)

lemma no_instruction_after:
  assumes "CHR ''M'' \<notin> set a" and "\<not> includes_str t consistency_instruction"
  shows "\<not> includes_str (a @ t) consistency_instruction"
proof
  assume "includes_str (a @ t) consistency_instruction"
  then have "includes_str (a @ t) (CHR ''M'' # tl consistency_instruction)"
    using consistency_instruction_head by simp
  from includes_str_skip [OF assms(1) this] have "includes_str t consistency_instruction"
    using consistency_instruction_head by simp
  with assms(2) show False by simp
qed

lemma empty_no_instruction: "consistency_instruction \<noteq> []"
  by (simp add: consistency_instruction_def)

lemma note_same_no_instruction:
  "\<not> includes_str (if 0 < ord then sequence_note ord @ keep_same else []) consistency_instruction"
  by (simp add: empty_no_instruction no_instruction_after sequence_note_no_M
                keep_same_no_instruction)

lemma note_identical_no_instruction:
  "\<not> includes_str (case sc of None \<Rightarrow> []
                     | Some s \<Rightarrow> if 0 < order s then sequence_note (order s) @ keep_identical
                                else [])
        consistency_instruction"
  by (simp add: empty_no_instruction no_instruction_after sequence_note_no_M
                keep_identical_no_instruction split: option.splits)

lemma set_alternativeText:
  "set (alternativeText s) \<subseteq> set (narration s) \<union> set (dialogue s) \<union> set (title s)"
  using set_trim [of "narration s"] set_trim [of "dialogue s"] set_trim [of "title s"]
  by (auto simp: alternativeText_def)

lemma style_sample_path:
  assumes "p \<noteq> []" "includes_str p style_marker"
  shows "finalPrompt (Some p) style sc previousImages = Some (styleSamplePrompt p style)"
  using assms by (simp add: finalPrompt_def Let_def)

lemma custom_path:
  assumes "\<not> includes_str p style_marker" "trim p \<noteq> []"
  shows "finalPrompt (Some p) style sc previousImages =
           Some (lead_in @ consistencyPrompt previousImages @ trim p
                 @ (case sc of None \<Rightarrow> []
                    | Some s \<Rightarrow> if 0 < order s then sequence_note (order s) @ keep_identical
                               else []))"
proof -
  from assms(2) have "p \<noteq> []" by (auto simp: trim_def)
  with assms show ?thesis by (simp add: finalPrompt_def Let_def)
qed

lemma scene_path:
  assumes "prompt = None \<or> prompt = Some []"
    and "finalPrompt prompt style sc previousImages = Some q"
  shows "\<exists>s content. sc = Some s
           \<and> set content \<subseteq> set (description s) \<union> set (narration s) \<union> set (dialogue s)
                             \<union> set (title s)
           \<and> q = limit_prompt (with_style style
                   (lead_in @ consistencyPrompt previousImages @ content
                    @ (if 0 < order s then sequence_note (order s) @ keep_same else [])))"
proof -
  from assms obtain s where s: "sc = Some s"
    by (cases sc) (auto simp: finalPrompt_def Let_def)
  show ?thesis
  proof (cases "trim (description s) \<noteq> []")
    case True
    with assms s have "q = limit_prompt (with_style style
                   (lead_in @ consistencyPrompt previousImages @ trim (description s)
                    @ (if 0 < order s then sequence_note (order s) @ keep_same else [])))"
      by (auto simp: finalPrompt_def Let_def)
    moreover have "set (trim (description s)) \<subseteq> set (description s) \<union> set (narration s)
                     \<union> set (dialogue s) \<union> set (title s)"
      using set_trim [of "description s"] by auto
    ultimately show ?thesis using s by blast
  next
    case False
    with assms s have "q = limit_prompt (with_style style
                   (lead_in @ consistencyPrompt previousImages @ alternativeText s
                    @ (if 0 < order s then sequence_note (order s) @ keep_same else [])))"
      by (auto simp: finalPrompt_def Let_def split: if_splits)
    moreover have "set (alternativeText s) \<subseteq> set (description s) \<union> set (narration s)
                     \<union> set (dialogue s) \<union> set (title s)"
      using set_alternativeText [of s] by auto
    ultimately show ?thesis using s by blast
  qed
qed

lemma limit_keeps_front:
  assumes "length a \<le> 1000"
  shows "\<exists>r. limit_prompt (a @ b) = a @ r"
proof (cases "length (a @ b) > 1000")
  case True
  with assms have "limit_prompt (a @ b) = a @ take (1000 - length a) b"
    by (simp add: limit_prompt_def)
  then show ?thesis by blast
next
  case False
  then have "limit_prompt (a @ b) = a @ b" by (simp add: limit_prompt_def)
  then show ?thesis by blast
qed

lemma scene_path_has_instruction:
  assumes "prompt = None \<or> prompt = Some []"
    and "finalPrompt prompt style sc previousImages = Some q"
    and "previousImages \<noteq> []"
    and "length (with_style style []) + length lead_in + length consistency_instruction \<le> 1000"
  shows "includes_str q consistency_instruction"
proof -
  from scene_path [OF assms(1,2)] obtain rest where
    "q = limit_prompt (with_style style (lead_in @ consistencyPrompt previousImages @ rest))"
    by blast
  with assms(3) have "q = limit_prompt ((with_style style [] @ lead_in @ consistency_instruction) @ rest)"
    using with_style_split [of style "lead_in @ consistency_instruction @ rest"]
    by (simp add: consistencyPrompt_def)
  moreover from assms(4) have "length (with_style style [] @ lead_in @ consistency_instruction) \<le> 1000"
    by simp
  ultimately obtain r where "q = (with_style style [] @ lead_in @ consistency_instruction) @ r"
    using limit_keeps_front by blast
  then have "q = (with_style style [] @ lead_in) @ consistency_instruction @ r" by simp
  then show ?thesis by (simp only: includes_str_append)
qed

lemma instruction_length: "length consistency_instruction = 74"
  by (simp add: consistency_instruction_def)

lemma instruction_snoc: "consistency_instruction = butlast consistency_instruction @ '' ''"
  by (simp add: consistency_instruction_def)

lemma sentence_head:
  "butlast consistency_instruction = CHR ''M'' # tl (butlast consistency_instruction)"
  by (simp add: consistency_instruction_def)

lemma instruction_junctions:
  "\<forall>k \<in> set [1 ..< 73]. take 2 (drop k consistency_instruction) \<noteq> '' C''
                         \<and> take 2 (drop k consistency_instruction) \<noteq> '' E''"
  by code_simp

lemma instruction_no_junction:
  assumes "0 < k" "k + 1 < length consistency_instruction"
  shows "take 2 (drop k consistency_instruction) \<noteq> '' C''"
    and "take 2 (drop k consistency_instruction) \<noteq> '' E''"
proof -
  from assms have "k \<in> set [1 ..< 73]" by (simp add: instruction_length)
  with instruction_junctions show "take 2 (drop k consistency_instruction) \<noteq> '' C''"
    and "take 2 (drop k consistency_instruction) \<noteq> '' E''" by blast+
qed

lemma sequence_note_head: "take 2 (sequence_note ord @ r) = '' E''"
  by (simp add: sequence_note_def)

lemma lead_in_head: "take 2 ('' '' @ lead_in @ r) = '' C''"
  by (simp add: lead_in_def)

lemma text_then_note:
  assumes inc: "includes_str (content @ rest) consistency_instruction"
    and shape: "rest = [] \<or> take 2 rest = '' E''"
    and free: "\<not> includes_str rest consistency_instruction"
  shows "includes_str content (butlast consistency_instruction)"
proof -
  from includes_str_cross [OF inc] free consider
    "includes_str content (butlast consistency_instruction)"
    | k where "0 < k" "k + 1 < length consistency_instruction" "rest \<noteq> []"
        "take 2 rest = take 2 (drop k consistency_instruction)"
    by blast
  then show ?thesis
  proof cases
    case 1
    then show ?thesis .
  next
    case 2
    with shape have "take 2 (drop k consistency_instruction) = '' E''" by simp
    with instruction_no_junction(2) [OF 2(1,2)] show ?thesis by simp
  qed
qed

lemma translated_includes:
  assumes "includes_str (to_str (translateStyleToEnglish (Some t)))
             (butlast consistency_instruction)"
  shows "includes_str t (butlast consistency_instruction)"
proof (rule ccontr)
  assume no: "\<not> includes_str t (butlast consistency_instruction)"
  from assms have "includes_str (to_str (translateStyleToEnglish (Some t)))
                     (CHR ''M'' # tl (butlast consistency_instruction))"
    using sentence_head by simp
  then have M: "CHR ''M'' \<in> set (to_str (translateStyleToEnglish (Some t)))"
    by (rule includes_str_head_mem)
  show False
  proof (cases "t = []")
    case True
    with M show False by (simp add: translateStyleToEnglish_def to_str_def)
  next
    case False
    show False
    proof (cases "map_of styleMap (toLowerCase t)")
      case (Some v)
      then have "(toLowerCase t, v) \<in> set styleMap" by (rule map_of_SomeD)
      then have "snd (toLowerCase t, v) \<in> snd ` set styleMap" by (rule imageI)
      then have "v \<in> set (map snd styleMap)" by simp
      with table_values_no_M have "CHR ''M'' \<notin> set v" by blast
      with Some False M show False
        by (simp add: translateStyleToEnglish_def styleMap_get_def to_str_def)
    next
      case None
      show False
      proof (cases "styleMap_get (toLowerCase t)")
        case none: None
        with False have "to_str (translateStyleToEnglish (Some t)) = t"
          by (simp add: translateStyleToEnglish_def to_str_def)
        with assms no show False by simp
      next
        case (Some v)
        with None have "v = JObjectFunction \<or> v = JObjectPrototype"
          by (auto simp: styleMap_get_def split: if_splits)
        with Some False M show False
          by (auto simp: translateStyleToEnglish_def to_str_def)
      qed
    qed
  qed
qed

lemma style_then_rest:
  assumes inc: "includes_str (with_style style [] @ lead_in @ r) consistency_instruction"
  shows "(\<exists>t. style = Some t \<and> includes_str t (butlast consistency_instruction))
       \<or> includes_str r consistency_instruction"
proof -
  have skip: "includes_str r consistency_instruction"
    if "includes_str (a @ lead_in @ r) consistency_instruction" "CHR ''M'' \<notin> set a" for a
  proof -
    from that(2) lead_in_no_M have "CHR ''M'' \<notin> set (a @ lead_in)" by simp
    moreover from that(1) have "includes_str ((a @ lead_in) @ r)
                                  (CHR ''M'' # tl consistency_instruction)"
      using consistency_instruction_head by simp
    ultimately have "includes_str r (CHR ''M'' # tl consistency_instruction)"
      by (rule includes_str_skip)
    then show ?thesis using consistency_instruction_head by simp
  qed
  show ?thesis
  proof (cases "with_style style [] = []")
    case True
    with inc skip [of "[]"] show ?thesis by simp
  next
    case False
    then obtain t where t: "style = Some t" and nb: "trim t \<noteq> []"
      by (auto simp: with_style_def split: option.splits if_splits)
    define X where "X = to_str (translateStyleToEnglish (Some t))"
    from t nb have ws: "with_style style [] = X @ '' ''" by (simp add: with_style_def X_def)
    from inc have "includes_str (X @ ('' '' @ lead_in @ r)) consistency_instruction"
      by (simp add: ws)
    from includes_str_cross [OF this] consider
      "includes_str X (butlast consistency_instruction)"
      | "includes_str ('' '' @ lead_in @ r) consistency_instruction"
      | k where "0 < k" "k + 1 < length consistency_instruction"
          "take 2 ('' '' @ lead_in @ r) = take 2 (drop k consistency_instruction)"
      by blast
    then show ?thesis
    proof cases
      case 1
      then have "includes_str t (butlast consistency_instruction)"
        unfolding X_def by (rule translated_includes)
      with t show ?thesis by blast
    next
      case 2
      with skip [of "'' ''"] show ?thesis by simp
    next
      case 3
      then have "take 2 (drop k consistency_instruction) = '' C''"
        using lead_in_head [of r] by simp
      with instruction_no_junction(1) [OF 3(1,2)] show ?thesis by simp
    qed
  qed
qed

lemma note_shapes:
  "(if 0 < ord then sequence_note ord @ keep_same else []) = []
   \<or> take 2 (if 0 < ord then sequence_note ord @ keep_same else []) = '' E''"
  "(case sc of None \<Rightarrow> []
    | Some s \<Rightarrow> if 0 < order s then sequence_note (order s) @ keep_identical else []) = []
   \<or> take 2 (case sc of None \<Rightarrow> []
              | Some s \<Rightarrow> if 0 < order s then sequence_note (order s) @ keep_identical
                         else []) = '' E''"
  by (simp_all add: sequence_note_head del: take_append split: option.splits)

lemma custom_path_absent:
  assumes "\<not> includes_str p style_marker" and "trim p \<noteq> []"
    and "\<not> includes_str p (butlast consistency_instruction)"
  shows "\<exists>q. finalPrompt (Some p) style sc [] = Some q
            \<and> \<not> includes_str q consistency_instruction"
proof -
  define rest where
    "rest = (case sc of None \<Rightarrow> []
             | Some s \<Rightarrow> if 0 < order s then sequence_note (order s) @ keep_identical else [])"
  from custom_path [OF assms(1,2), of style sc "[]"]
  have q: "finalPrompt (Some p) style sc [] = Some (lead_in @ trim p @ rest)"
    by (simp add: consistencyPrompt_def rest_def)
  have "\<not> includes_str (lead_in @ trim p @ rest) consistency_instruction"
  proof
    assume "includes_str (lead_in @ trim p @ rest) consistency_instruction"
    then have "includes_str (lead_in @ trim p @ rest) (CHR ''M'' # tl consistency_instruction)"
      using consistency_instruction_head by simp
    from includes_str_skip [OF lead_in_no_M this]
    have "includes_str (trim p @ rest) consistency_instruction"
      using consistency_instruction_head by simp
    moreover have "rest = [] \<or> take 2 rest = '' E''"
      unfolding rest_def by (rule note_shapes(2))
    moreover have "\<not> includes_str rest consistency_instruction"
      unfolding rest_def by (rule note_identical_no_instruction)
    ultimately have "includes_str (trim p) (butlast consistency_instruction)"
      by (rule text_then_note)
    then have "includes_str p (butlast consistency_instruction)" by (rule includes_str_trim)
    with assms(3) show False by simp
  qed
  with q show ?thesis by blast
qed

lemma includes_alternativeText:
  assumes "includes_str (alternativeText s) p" and "p \<noteq> []"
  shows "includes_str (narration s) p \<or> includes_str (dialogue s) p \<or> includes_str (title s) p"
  using assms by (auto simp: alternativeText_def dest: includes_str_trim split: if_splits)

lemma scene_path_text:
  assumes "prompt = None \<or> prompt = Some []"
    and "finalPrompt prompt style sc previousImages = Some q"
  shows "\<exists>s content. sc = Some s
           \<and> (content = trim (description s) \<or> content = alternativeText s)
           \<and> q = limit_prompt (with_style style
                   (lead_in @ consistencyPrompt previousImages @ content
                    @ (if 0 < order s then sequence_note (order s) @ keep_same else [])))"
proof -
  from assms obtain s where s: "sc = Some s"
    by (cases sc) (auto simp: finalPrompt_def Let_def)
  show ?thesis
  proof (cases "trim (description s) \<noteq> []")
    case True
    with assms s have "q = limit_prompt (with_style style
                   (lead_in @ consistencyPrompt previousImages @ trim (description s)
                    @ (if 0 < order s then sequence_note (order s) @ keep_same else [])))"
      by (auto simp: finalPrompt_def Let_def)
    with s show ?thesis by blast
  next
    case False
    with assms s have "q = limit_prompt (with_style style
                   (lead_in @ consistencyPrompt previousImages @ alternativeText s
                    @ (if 0 < order s then sequence_note (order s) @ keep_same else [])))"
      by (auto simp: finalPrompt_def Let_def split: if_splits)
    with s show ?thesis by blast
  qed
qed

lemma sentence_nonempty: "butlast consistency_instruction \<noteq> []"
  by (simp add: consistency_instruction_def)

lemma scene_path_absent:
  assumes path: "prompt = None \<or> prompt = Some []"
    and q: "finalPrompt prompt style sc [] = Some q"
    and style: "\<forall>t. style = Some t \<longrightarrow> \<not> includes_str t (butlast consistency_instruction)"
    and texts: "\<forall>s. sc = Some s \<longrightarrow>
                  \<not> includes_str (title s) (butlast consistency_instruction)
                \<and> \<not> includes_str (description s) (butlast consistency_instruction)
                \<and> \<not> includes_str (narration s) (butlast consistency_instruction)
                \<and> \<not> includes_str (dialogue s) (butlast consistency_instruction)"
  shows "\<not> includes_str q consistency_instruction"
proof
  assume inc: "includes_str q consistency_instruction"
  from scene_path_text [OF path q] obtain s content where
    s: "sc = Some s"
    and c: "content = trim (description s) \<or> content = alternativeText s"
    and qq: "q = limit_prompt (with_style style
                   (lead_in @ consistencyPrompt [] @ content
                    @ (if 0 < order s then sequence_note (order s) @ keep_same else [])))"
    by blast
  define rest where "rest = (if 0 < order s then sequence_note (order s) @ keep_same else [])"
  from inc qq have "includes_str (with_style style (lead_in @ content @ rest))
                      consistency_instruction"
    using includes_str_limit by (simp add: consistencyPrompt_def rest_def)
  then have "includes_str (with_style style [] @ lead_in @ content @ rest)
               consistency_instruction"
    using with_style_split [of style "lead_in @ content @ rest"] by simp
  from style_then_rest [OF this] style
  have "includes_str (content @ rest) consistency_instruction" by blast
  moreover have "rest = [] \<or> take 2 rest = '' E''"
    unfolding rest_def by (rule note_shapes(1))
  moreover have "\<not> includes_str rest consistency_instruction"
    unfolding rest_def by (rule note_same_no_instruction)
  ultimately have "includes_str content (butlast consistency_instruction)"
    by (rule text_then_note)
  with c have "includes_str (description s) (butlast consistency_instruction)
             \<or> includes_str (narration s) (butlast consistency_instruction)
             \<or> includes_str (dialogue s) (butlast consistency_instruction)
             \<or> includes_str (title s) (butlast consistency_instruction)"
    using includes_alternativeText [OF _ sentence_nonempty, of s]
    by (auto dest: includes_str_trim)
  with texts s show False by blast
qed

lemma scene_path_cut:
  assumes path: "prompt = None \<or> prompt = Some []"
    and q: "finalPrompt prompt style sc previousImages = Some q"
    and ne: "previousImages \<noteq> []"
    and long: "\<not> length (with_style style []) + length lead_in + length consistency_instruction
                   \<le> 1000"
    and style: "\<forall>t. style = Some t \<longrightarrow> \<not> includes_str t (butlast consistency_instruction)"
  shows "\<not> includes_str q consistency_instruction"
proof
  assume inc: "includes_str q consistency_instruction"
  from scene_path_text [OF path q] obtain r where
    "q = limit_prompt (with_style style (lead_in @ consistencyPrompt previousImages @ r))"
    by blast
  with ne have qq: "q = limit_prompt (with_style style [] @ lead_in @ consistency_instruction @ r)"
    using with_style_split [of style "lead_in @ consistency_instruction @ r"]
    by (simp add: consistencyPrompt_def)
  define A where "A = with_style style [] @ lead_in @ butlast consistency_instruction"
  have split: "with_style style [] @ lead_in @ consistency_instruction @ r = A @ ('' '' @ r)"
    unfolding A_def using instruction_snoc by (metis append.assoc)
  have "length (with_style style [] @ lead_in @ consistency_instruction) = length A + 1"
    unfolding A_def by (simp add: instruction_length)
  with long have lenA: "1000 \<le> length A" by simp
  then have "q = take 1000 A" unfolding qq split by (simp add: limit_prompt_def)
  with inc have "includes_str (take 1000 A) consistency_instruction" by simp
  then have "includes_str A consistency_instruction" by (rule includes_str_take)
  from style_then_rest [OF this [unfolded A_def]] style
  have "includes_str (butlast consistency_instruction) consistency_instruction" by blast
  from includes_str_length [OF this] show False by (simp add: instruction_length)
qed

text \<open>
  Claim C9 fails in three ways. On the style-sample path, for a prompt with the marker
  \<open>Ilustracao no estilo\<close>, the prompt sent is built from the style alone, and it lacks the
  instruction although \<open>previousImages\<close> is not empty. On a scene path the cut to 1000
  characters can remove the instruction: for a style of 1000 letters the prompt sent is
  that style alone. And with an empty list the prompt sent holds the instruction when
  the custom prompt holds it.
\<close>

theorem consistency_claim_counterexample:
  "finalPrompt (Some (style_marker @ '' anime'')) None None [''https://example.com/1.png'']
     = Some ''anime style style image with people''
   \<and> \<not> includes_str ''anime style style image with people'' consistency_instruction
   \<and> finalPrompt (Some []) (Some long_prompt) (Some (demo_scene ''b'' 1 ''Um rio'')) [demo_url]
       = Some long_prompt
   \<and> \<not> includes_str long_prompt consistency_instruction
   \<and> finalPrompt (Some sentence_prompt) None None []
       = Some (lead_in @ consistency_instruction @ ''Um rio'')
   \<and> includes_str (lead_in @ consistency_instruction @ ''Um rio'') consistency_instruction"
proof -
  have 1: "finalPrompt (Some (style_marker @ '' anime'')) None None [''https://example.com/1.png'']
     = Some ''anime style style image with people''
   \<and> \<not> includes_str ''anime style style image with people'' consistency_instruction"
    by code_simp
  have 2: "finalPrompt (Some []) (Some long_prompt) (Some (demo_scene ''b'' 1 ''Um rio''))
             [demo_url] = Some long_prompt"
    by code_simp
  have 3: "\<not> includes_str long_prompt consistency_instruction"
  proof
    assume "includes_str long_prompt consistency_instruction"
    then have "includes_str long_prompt (CHR ''M'' # tl consistency_instruction)"
      using consistency_instruction_head by simp
    then have "CHR ''M'' \<in> set long_prompt" by (rule includes_str_head_mem)
    then show False by (simp add: long_prompt_def)
  qed
  have 4: "finalPrompt (Some sentence_prompt) None None []
       = Some (lead_in @ consistency_instruction @ ''Um rio'')"
    by code_simp
  have 5: "includes_str (lead_in @ consistency_instruction @ ''Um rio'') consistency_instruction"
    by (simp only: includes_str_append)
  from 1 2 3 4 5 show ?thesis by simp
qed

text \<open>
  Claim C9, as amended. On the style-sample path the prompt sent does not depend on
  \<open>previousImages\<close>: no instruction is added. On the custom path and on the two scene
  paths the builder puts the consistency instruction right behind the lead-in exactly
  when \<open>previousImages\<close> is not empty. With a list that is not empty the prompt sent
  holds the instruction on the custom path, and on the scene paths whenever style
  prefix, lead-in and instruction fit into the 1000 characters kept by the cut. When no
  text of the caller (the custom prompt, or the style and the four texts of the scene)
  holds the sentence of the instruction, which is the instruction without its final
  space, the prompt sent holds the instruction on the custom path exactly when
  \<open>previousImages\<close> is not empty, and on the scene paths exactly when \<open>previousImages\<close> is
  not empty and style prefix, lead-in and instruction fit into the first 1000
  characters.
\<close>

theorem consistency_instruction_presence:
  "(p \<noteq> [] \<and> includes_str p style_marker \<longrightarrow>
        finalPrompt (Some p) style sc previousImages = Some (styleSamplePrompt p style))
   \<and> (\<not> includes_str p style_marker \<and> trim p \<noteq> [] \<longrightarrow>
        (\<exists>rest. finalPrompt (Some p) style sc previousImages
                   = Some (lead_in @ consistencyPrompt previousImages @ rest))
        \<and> (previousImages \<noteq> [] \<longrightarrow>
              (\<exists>q. finalPrompt (Some p) style sc previousImages = Some q
                   \<and> includes_str q consistency_instruction))
        \<and> (\<not> includes_str p (butlast consistency_instruction) \<longrightarrow>
              (\<exists>q. finalPrompt (Some p) style sc previousImages = Some q
                   \<and> (includes_str q consistency_instruction \<longleftrightarrow> previousImages \<noteq> []))))
   \<and> ((prompt = None \<or> prompt = Some [])
        \<and> finalPrompt prompt style sc previousImages = Some q \<longrightarrow>
        (\<exists>rest. q = limit_prompt (with_style style
                        (lead_in @ consistencyPrompt previousImages @ rest)))
        \<and> (previousImages \<noteq> []
             \<and> length (with_style style []) + length lead_in + length consistency_instruction
                 \<le> 1000 \<longrightarrow>
              includes_str q consistency_instruction)
        \<and> ((\<forall>t. style = Some t \<longrightarrow> \<not> includes_str t (butlast consistency_instruction))
             \<and> (\<forall>s. sc = Some s \<longrightarrow>
                    \<not> includes_str (title s) (butlast consistency_instruction)
                  \<and> \<not> includes_str (description s) (butlast consistency_instruction)
                  \<and> \<not> includes_str (narration s) (butlast consistency_instruction)
                  \<and> \<not> includes_str (dialogue s) (butlast consistency_instruction)) \<longrightarrow>
              (includes_str q consistency_instruction
                 \<longleftrightarrow> previousImages \<noteq> []
                     \<and> length (with_style style []) + length lead_in
                         + length consistency_instruction \<le> 1000)))
   \<and> consistencyPrompt [] = []
   \<and> (previousImages \<noteq> [] \<longrightarrow> consistencyPrompt previousImages = consistency_instruction)"
proof -
  have A: "finalPrompt (Some p) style sc previousImages = Some (styleSamplePrompt p style)"
    if "p \<noteq> []" "includes_str p style_marker"
    using that by (rule style_sample_path)
  have B1: "\<exists>rest. finalPrompt (Some p) style sc previousImages
                   = Some (lead_in @ consistencyPrompt previousImages @ rest)"
    if "\<not> includes_str p style_marker" "trim p \<noteq> []"
    using custom_path [OF that, of style sc previousImages] by blast
  have B2: "\<exists>q. finalPrompt (Some p) style sc previousImages = Some q
                   \<and> includes_str q consistency_instruction"
    if c: "\<not> includes_str p style_marker" "trim p \<noteq> []" and ne: "previousImages \<noteq> []"
  proof -
    from B1 [OF c] obtain rest where
      r: "finalPrompt (Some p) style sc previousImages
            = Some (lead_in @ consistencyPrompt previousImages @ rest)" by blast
    from ne have "consistencyPrompt previousImages = consistency_instruction"
      by (simp add: consistencyPrompt_def)
    then have "includes_str (lead_in @ consistencyPrompt previousImages @ rest)
                    consistency_instruction"
      by (simp only: includes_str_append)
    with r show ?thesis by blast
  qed
  have B3: "\<exists>q. finalPrompt (Some p) style sc previousImages = Some q
                   \<and> (includes_str q consistency_instruction \<longleftrightarrow> previousImages \<noteq> [])"
    if c: "\<not> includes_str p style_marker" "trim p \<noteq> []"
      and t: "\<not> includes_str p (butlast consistency_instruction)"
  proof (cases "previousImages = []")
    case True
    from custom_path_absent [OF c t, of style sc] True show ?thesis by simp
  next
    case False
    from B2 [OF c False] False show ?thesis by simp
  qed
  have C1: "\<exists>rest. q = limit_prompt (with_style style
                        (lead_in @ consistencyPrompt previousImages @ rest))"
    if "prompt = None \<or> prompt = Some []"
      "finalPrompt prompt style sc previousImages = Some q"
    using scene_path_text [OF that] by blast
  have C2: "includes_str q consistency_instruction"
    if "prompt = None \<or> prompt = Some []"
      "finalPrompt prompt style sc previousImages = Some q"
      "previousImages \<noteq> []"
      "length (with_style style []) + length lead_in + length consistency_instruction \<le> 1000"
    using that by (rule scene_path_has_instruction)
  have C3: "includes_str q consistency_instruction
                 \<longleftrightarrow> previousImages \<noteq> []
                     \<and> length (with_style style []) + length lead_in
                         + length consistency_instruction \<le> 1000"
    if path: "prompt = None \<or> prompt = Some []"
      and q: "finalPrompt prompt style sc previousImages = Some q"
      and style: "\<forall>t. style = Some t \<longrightarrow> \<not> includes_str t (butlast consistency_instruction)"
      and texts: "\<forall>s. sc = Some s \<longrightarrow>
                    \<not> includes_str (title s) (butlast consistency_instruction)
                  \<and> \<not> includes_str (description s) (butlast consistency_instruction)
                  \<and> \<not> includes_str (narration s) (butlast consistency_instruction)
                  \<and> \<not> includes_str (dialogue s) (butlast consistency_instruction)"
  proof (cases "previousImages = []")
    case True
    with q have "finalPrompt prompt style sc [] = Some q" by simp
    from scene_path_absent [OF path this style texts] True show ?thesis by simp
  next
    case False
    show ?thesis
    proof (cases "length (with_style style []) + length lead_in
                    + length consistency_instruction \<le> 1000")
      case True
      from C2 [OF path q False True] False True show ?thesis by simp
    next
      case long: False
      from scene_path_cut [OF path q False long style] long show ?thesis by simp
    qed
  qed
  have D: "consistencyPrompt [] = []"
    "previousImages \<noteq> [] \<longrightarrow> consistencyPrompt previousImages = consistency_instruction"
    by (simp_all add: consistencyPrompt_def)
  from A B1 B2 B3 C1 C2 C3 D show ?thesis by blast
qed

theorem consistency_instruction_presence_witness:
  "(style_marker @ '' anime'' \<noteq> [] \<and> includes_str (style_marker @ '' anime'') style_marker
      \<and> finalPrompt (Some (style_marker @ '' anime'')) None None [demo_url]
           = Some (styleSamplePrompt (style_marker @ '' anime'') None))
   \<and> (\<not> includes_str maria_prompt style_marker \<and> trim maria_prompt \<noteq> []
      \<and> \<not> includes_str maria_prompt (butlast consistency_instruction)
      \<and> (\<exists>q. finalPrompt (Some maria_prompt) None None [demo_url] = Some q
             \<and> includes_str q consistency_instruction)
      \<and> (\<exists>q. finalPrompt (Some maria_prompt) None None [] = Some q
             \<and> \<not> includes_str q consistency_instruction))
   \<and> (length (with_style (Some ''anime'') []) + length lead_in + length consistency_instruction
         \<le> 1000
      \<and> \<not> includes_str ''anime'' (butlast consistency_instruction)
      \<and> \<not> includes_str (title (demo_scene ''b'' 1 maria_prompt))
             (butlast consistency_instruction)
      \<and> \<not> includes_str (description (demo_scene ''b'' 1 maria_prompt))
             (butlast consistency_instruction)
      \<and> \<not> includes_str (narration (demo_scene ''b'' 1 maria_prompt))
             (butlast consistency_instruction)
      \<and> \<not> includes_str (dialogue (demo_scene ''b'' 1 maria_prompt))
             (butlast consistency_instruction)
      \<and> (\<exists>q. finalPrompt (Some []) (Some ''anime'') (Some (demo_scene ''b'' 1 maria_prompt))
                 [demo_url] = Some q
             \<and> includes_str q consistency_instruction)
      \<and> (\<exists>q. finalPrompt (Some []) (Some ''anime'') (Some (demo_scene ''b'' 1 maria_prompt)) []
                 = Some q
             \<and> \<not> includes_str q consistency_instruction))"
proof -
  have a: "style_marker @ '' anime'' \<noteq> [] \<and> includes_str (style_marker @ '' anime'') style_marker"
    by code_simp
  have b: "\<not> includes_str maria_prompt style_marker \<and> trim maria_prompt \<noteq> []"
    by code_simp
  have b': "[demo_url] \<noteq> []" by simp
  have b'': "\<not> includes_str maria_prompt (butlast consistency_instruction)" by code_simp
  have c: "length (with_style (Some ''anime'') []) + length lead_in
             + length consistency_instruction \<le> 1000"
    by code_simp
  have d: "\<not> includes_str ''anime'' (butlast consistency_instruction)" by code_simp
  have d': "\<not> includes_str (title (demo_scene ''b'' 1 maria_prompt))
               (butlast consistency_instruction)
          \<and> \<not> includes_str (description (demo_scene ''b'' 1 maria_prompt))
               (butlast consistency_instruction)
          \<and> \<not> includes_str (narration (demo_scene ''b'' 1 maria_prompt))
               (butlast consistency_instruction)
          \<and> \<not> includes_str (dialogue (demo_scene ''b'' 1 maria_prompt))
               (butlast consistency_instruction)"
    by code_simp
  obtain q1 where q1: "finalPrompt (Some []) (Some ''anime'') (Some (demo_scene ''b'' 1 maria_prompt))
                         [demo_url] = Some q1"
  proof -
    have "finalPrompt (Some []) (Some ''anime'') (Some (demo_scene ''b'' 1 maria_prompt))
            [demo_url] \<noteq> None" by code_simp
    then show ?thesis using that by blast
  qed
  obtain q2 where q2: "finalPrompt (Some []) (Some ''anime'') (Some (demo_scene ''b'' 1 maria_prompt))
                         [] = Some q2"
  proof -
    have "finalPrompt (Some []) (Some ''anime'') (Some (demo_scene ''b'' 1 maria_prompt))
            [] \<noteq> None" by code_simp
    then show ?thesis using that by blast
  qed
  note t1 = consistency_instruction_presence
              [where p = "style_marker @ '' anime''" and style = None and sc = None
                 and previousImages = "[demo_url]" and prompt = None]
  note t2 = consistency_instruction_presence
              [where p = maria_prompt and style = None and sc = None
                 and previousImages = "[demo_url]" and prompt = None]
  note t2' = consistency_instruction_presence
              [where p = maria_prompt and style = None and sc = None
                 and previousImages = "[]" and prompt = None]
  note t3 = consistency_instruction_presence
              [where p = maria_prompt and style = "Some ''anime''"
                 and sc = "Some (demo_scene ''b'' 1 maria_prompt)"
                 and previousImages = "[demo_url]" and prompt = "Some []" and q = q1]
  note t4 = consistency_instruction_presence
              [where p = maria_prompt and style = "Some ''anime''"
                 and sc = "Some (demo_scene ''b'' 1 maria_prompt)"
                 and previousImages = "[]" and prompt = "Some []" and q = q2]
  from t1 a have r1: "finalPrompt (Some (style_marker @ '' anime'')) None None [demo_url]
           = Some (styleSamplePrompt (style_marker @ '' anime'') None)" by blast
  from t2 b b' have r2: "\<exists>q. finalPrompt (Some maria_prompt) None None [demo_url] = Some q
             \<and> includes_str q consistency_instruction" by blast
  from t2' b b'' have "\<exists>q. finalPrompt (Some maria_prompt) None None [] = Some q
             \<and> (includes_str q consistency_instruction \<longleftrightarrow> ([]::string list) \<noteq> [])" by blast
  then have r2': "\<exists>q. finalPrompt (Some maria_prompt) None None [] = Some q
             \<and> \<not> includes_str q consistency_instruction" by simp
  from d d' have h: "(\<forall>t. Some ''anime'' = Some t \<longrightarrow>
                        \<not> includes_str t (butlast consistency_instruction))
       \<and> (\<forall>s. Some (demo_scene ''b'' 1 maria_prompt) = Some s \<longrightarrow>
                    \<not> includes_str (title s) (butlast consistency_instruction)
                  \<and> \<not> includes_str (description s) (butlast consistency_instruction)
                  \<and> \<not> includes_str (narration s) (butlast consistency_instruction)
                  \<and> \<not> includes_str (dialogue s) (butlast consistency_instruction))"
    by simp
  from t3 q1 h have "includes_str q1 consistency_instruction
                 \<longleftrightarrow> [demo_url] \<noteq> []
                     \<and> length (with_style (Some ''anime'') []) + length lead_in
                         + length consistency_instruction \<le> 1000" by blast
  with c have "includes_str q1 consistency_instruction" by simp
  with q1 have r3: "\<exists>q. finalPrompt (Some []) (Some ''anime'') (Some (demo_scene ''b'' 1 maria_prompt))
                 [demo_url] = Some q \<and> includes_str q consistency_instruction" by blast
  from t4 q2 h have "includes_str q2 consistency_instruction
                 \<longleftrightarrow> ([]::string list) \<noteq> []
                     \<and> length (with_style (Some ''anime'') []) + length lead_in
                         + length consistency_instruction \<le> 1000" by blast
  then have "\<not> includes_str q2 consistency_instruction" by simp
  with q2 have r4: "\<exists>q. finalPrompt (Some []) (Some ''anime'') (Some (demo_scene ''b'' 1 maria_prompt)) []
                 = Some q \<and> \<not> includes_str q consistency_instruction" by blast
  from a b b'' c d d' r1 r2 r2' r3 r4 show ?thesis by (intro conjI) simp_all
qed

end
